theory Spec2Isabelle
  imports Complex_Main "HOL-Library.Multiset" "HOL-Library.Sublist"
begin

section \<open>Strings and the JavaScript primitives used by the indexers\<close>

text \<open>
  Strings are ASCII character lists. The regular-expression classes of the source are the
  ASCII parts of \<^verbatim>\<open>\s\<close>, \<^verbatim>\<open>\d\<close>, \<^verbatim>\<open>\w\<close> and \<^verbatim>\<open>[A-Z]\<close>; the dot of a pattern does
  not match a line terminator. Numbers of the source (\<^verbatim>\<open>number\<close>) that carry weights, scores,
  distances and positions are reals, without rounding and without \<^verbatim>\<open>NaN\<close>; the paragraph
  indexes of the tree are integers; \<^verbatim>\<open>maxResults\<close> and \<^verbatim>\<open>maxSummaryLength\<close> are counts,
  that is natural numbers.
\<close>

definition is_space :: "char \<Rightarrow> bool" where
  "is_space c = (c \<in> set [CHR 0x09, CHR 0x0A, CHR 0x0B, CHR 0x0C, CHR 0x0D, CHR '' ''])"

definition is_line_terminator :: "char \<Rightarrow> bool" where
  "is_line_terminator c = (c \<in> set [CHR 0x0A, CHR 0x0D])"

definition is_digit :: "char \<Rightarrow> bool" where
  "is_digit c = (c \<in> set ''0123456789'')"

definition is_upper :: "char \<Rightarrow> bool" where
  "is_upper c = (c \<in> set ''ABCDEFGHIJKLMNOPQRSTUVWXYZ'')"

definition is_lower :: "char \<Rightarrow> bool" where
  "is_lower c = (c \<in> set ''abcdefghijklmnopqrstuvwxyz'')"

definition is_word_char :: "char \<Rightarrow> bool" where
  "is_word_char c = (is_upper c \<or> is_lower c \<or> is_digit c \<or> c = CHR ''_'')"

definition to_lower_char :: "char \<Rightarrow> char" where
  "to_lower_char c =
     (case map_of (zip ''ABCDEFGHIJKLMNOPQRSTUVWXYZ'' ''abcdefghijklmnopqrstuvwxyz'') c of
        Some l \<Rightarrow> l | None \<Rightarrow> c)"

definition to_upper_char :: "char \<Rightarrow> char" where
  "to_upper_char c =
     (case map_of (zip ''abcdefghijklmnopqrstuvwxyz'' ''ABCDEFGHIJKLMNOPQRSTUVWXYZ'') c of
        Some u \<Rightarrow> u | None \<Rightarrow> c)"

definition toLowerCase :: "string \<Rightarrow> string" where
  "toLowerCase s = map to_lower_char s"

definition toUpperCase :: "string \<Rightarrow> string" where
  "toUpperCase s = map to_upper_char s"

text \<open>\<^verbatim>\<open>String.prototype.trim\<close>.\<close>

definition trim :: "string \<Rightarrow> string" where
  "trim s = rev (dropWhile is_space (rev (dropWhile is_space s)))"

text \<open>\<^verbatim>\<open>Array.prototype.join\<close>.\<close>

fun js_join :: "string \<Rightarrow> string list \<Rightarrow> string" where
  "js_join sep [] = []"
| "js_join sep [x] = x"
| "js_join sep (x # y # ys) = x @ sep @ js_join sep (y # ys)"

definition startsWith :: "string \<Rightarrow> string \<Rightarrow> bool" where
  "startsWith s p = (take (length p) s = p)"

text \<open>\<^verbatim>\<open>String.prototype.includes\<close>: the argument occurs as a contiguous substring.\<close>

fun js_includes :: "string \<Rightarrow> string \<Rightarrow> bool" where
  "js_includes [] sub = (sub = [])"
| "js_includes (c # cs) sub = (startsWith (c # cs) sub \<or> js_includes cs sub)"

text \<open>
  \<^verbatim>\<open>s.split(/\s+/)\<close>: the pieces between the maximal runs of white space; a run at either
  end leaves an empty piece there, and the empty string gives one empty piece.
\<close>

function split_ws :: "string \<Rightarrow> string list" where
  "split_ws s =
     (let piece = takeWhile (\<lambda>c. \<not> is_space c) s;
          rest = dropWhile (\<lambda>c. \<not> is_space c) s
      in if rest = [] then [piece] else piece # split_ws (dropWhile is_space rest))"
  by pat_completeness auto
termination
proof (relation "measure length")
  fix s :: string and piece rest
  assume r: "rest = dropWhile (\<lambda>c. \<not> is_space c) s" and ne: "rest \<noteq> []"
  from ne obtain c cs where rc: "rest = c # cs" by (cases rest) auto
  have "\<not> \<not> is_space (hd rest)"
    using ne unfolding r by (rule hd_dropWhile)
  then have "is_space c" using rc by simp
  then have "length (dropWhile is_space rest) \<le> length cs"
    using rc by (simp add: length_dropWhile_le)
  moreover have "length rest \<le> length s"
    using r by (simp add: length_dropWhile_le)
  ultimately show "(dropWhile is_space rest, s) \<in> measure length"
    using rc by simp
qed simp

declare split_ws.simps [simp del]

text \<open>
  \<^verbatim>\<open>content.split(/\n\s*\n/)\<close>. A separator starts at a line feed that is followed, after
  white space only, by another line feed; the greedy \<^verbatim>\<open>\s*\<close> makes it end at the last
  line feed of that white-space run. \<open>cur\<close> is the piece being read, reversed.
\<close>

definition after_last_nl :: "string \<Rightarrow> string" where
  "after_last_nl w = rev (takeWhile (\<lambda>c. c \<noteq> CHR 0x0A) (rev w))"

function split_blank_aux :: "string \<Rightarrow> string \<Rightarrow> string list" where
  "split_blank_aux cur [] = [rev cur]"
| "split_blank_aux cur (c # cs) =
     (if c = CHR 0x0A \<and> CHR 0x0A \<in> set (takeWhile is_space cs)
      then rev cur # split_blank_aux [] (after_last_nl (takeWhile is_space cs) @ dropWhile is_space cs)
      else split_blank_aux (c # cur) cs)"
  by pat_completeness auto
termination
proof (relation "measure (\<lambda>(cur, s). length s)")
  fix cur :: string and c :: char and cs :: string
  have "length (after_last_nl (takeWhile is_space cs)) \<le> length (takeWhile is_space cs)"
    unfolding after_last_nl_def
    using length_takeWhile_le [of "\<lambda>c. c \<noteq> CHR 0x0A" "rev (takeWhile is_space cs)"] by simp
  moreover have "length (takeWhile is_space cs) + length (dropWhile is_space cs) = length cs"
    using takeWhile_dropWhile_id [of is_space cs] length_append [of "takeWhile is_space cs" "dropWhile is_space cs"]
    by simp
  ultimately show "(([], after_last_nl (takeWhile is_space cs) @ dropWhile is_space cs), (cur, c # cs))
      \<in> measure (\<lambda>(cur, s). length s)"
    by simp
qed simp_all

definition split_blank :: "string \<Rightarrow> string list" where
  "split_blank s = split_blank_aux [] s"

text \<open>
  \<^verbatim>\<open>Array.prototype.sort\<close> with a comparator: a stable insertion sort. \<open>cmp a b > 0\<close> puts
  \<open>b\<close> before \<open>a\<close>; elements that compare equal keep their order.
\<close>

fun js_insert :: "('a \<Rightarrow> 'a \<Rightarrow> real) \<Rightarrow> 'a \<Rightarrow> 'a list \<Rightarrow> 'a list" where
  "js_insert cmp x [] = [x]"
| "js_insert cmp x (y # ys) = (if cmp x y > 0 then y # js_insert cmp x ys else x # y # ys)"

definition js_sort :: "('a \<Rightarrow> 'a \<Rightarrow> real) \<Rightarrow> 'a list \<Rightarrow> 'a list" where
  "js_sort cmp xs = foldr (js_insert cmp) xs []"

text \<open>
  Reading a property of \<^verbatim>\<open>undefined\<close> throws a \<^verbatim>\<open>TypeError\<close>. \<^verbatim>\<open>Array.prototype.find\<close>
  returns \<^verbatim>\<open>undefined\<close> (here \<open>None\<close>) when no element matches, so a property read on its
  result is a read that can throw. \<open>map_throwing\<close> is \<^verbatim>\<open>Array.prototype.map\<close> with a callback
  that can throw: the first exception ends the call.
\<close>

datatype js_error = TypeError

definition read_property :: "'a option \<Rightarrow> ('a \<Rightarrow> 'b) \<Rightarrow> js_error + 'b" where
  "read_property obj field = (case obj of None \<Rightarrow> Inl TypeError | Some x \<Rightarrow> Inr (field x))"

fun map_throwing :: "('a \<Rightarrow> js_error + 'b) \<Rightarrow> 'a list \<Rightarrow> js_error + 'b list" where
  "map_throwing f [] = Inr []"
| "map_throwing f (x # xs) =
     (case f x of
        Inl e \<Rightarrow> Inl e
      | Inr y \<Rightarrow> (case map_throwing f xs of Inl e \<Rightarrow> Inl e | Inr ys \<Rightarrow> Inr (y # ys)))"

text \<open>\<^verbatim>\<open>s.split('.')\<close> and friends: splitting at one character.\<close>

fun split_char_aux :: "char \<Rightarrow> string \<Rightarrow> string \<Rightarrow> string list" where
  "split_char_aux d cur [] = [rev cur]"
| "split_char_aux d cur (c # cs) =
     (if c = d then rev cur # split_char_aux d [] cs else split_char_aux d (c # cur) cs)"

definition split_char :: "char \<Rightarrow> string \<Rightarrow> string list" where
  "split_char d s = split_char_aux d [] s"

text \<open>The decimal digits of a natural number, as template strings print it.\<close>

fun show_nat :: "nat \<Rightarrow> string" where
  "show_nat n =
     (if n < 10 then [''0123456789'' ! n]
      else show_nat (n div 10) @ [''0123456789'' ! (n mod 10)])"

declare show_nat.simps [simp del]

section \<open>The heading classifiers\<close>

text \<open>
  What a classifier returns: \<^verbatim>\<open>{ isSection, title, level }\<close> in GraphIndexer and
  \<^verbatim>\<open>{ isHeading, title, level }\<close> in TreeGenerator.
\<close>

record para_info =
  is_heading :: bool
  info_title :: string
  info_level :: nat

text \<open>
  \<^verbatim>\<open>paragraph.match(/^(#{1,6})\s+(.*)/)\<close>: the groups 1 and 2 of the match. After the run
  of hashes the next character is not a hash, so no shorter run of hashes can be followed
  by white space: only the whole run can match.
\<close>

definition match_markdown :: "string \<Rightarrow> (string \<times> string) option" where
  "match_markdown p =
     (let hashes = takeWhile (\<lambda>c. c = CHR ''#'') p;
          rest = dropWhile (\<lambda>c. c = CHR ''#'') p
      in if 1 \<le> length hashes \<and> length hashes \<le> 6 \<and> rest \<noteq> [] \<and> is_space (hd rest)
         then Some (hashes, takeWhile (\<lambda>c. \<not> is_line_terminator c) (dropWhile is_space rest))
         else None)"

text \<open>The greedy \<^verbatim>\<open>(\.\d+)*\<close>: what it consumes, and what is left.\<close>

function dotted_groups :: "string \<Rightarrow> string \<times> string" where
  "dotted_groups s =
     (case s of
        [] \<Rightarrow> ([], s)
      | c # t \<Rightarrow>
          if c = CHR ''.'' \<and> takeWhile is_digit t \<noteq> []
          then (let (m, r) = dotted_groups (dropWhile is_digit t)
                in (c # takeWhile is_digit t @ m, r))
          else ([], s))"
  by pat_completeness auto
termination
  by (relation "measure length") (auto simp: length_dropWhile_le less_Suc_eq_le)

declare dotted_groups.simps [simp del]

text \<open>
  \<^verbatim>\<open>paragraph.match(/^(\d+(\.\d+)*)\s+(.*)/)\<close>: the groups 1 and 3. The character after
  any shorter numbering is a digit or a dot, so only the longest numbering can be followed
  by white space.
\<close>

definition match_numbered :: "string \<Rightarrow> (string \<times> string) option" where
  "match_numbered p =
     (let d = takeWhile is_digit p
      in if d = [] then None
         else (let (m, r) = dotted_groups (dropWhile is_digit p)
               in if r \<noteq> [] \<and> is_space (hd r)
                  then Some (d @ m, takeWhile (\<lambda>c. \<not> is_line_terminator c) (dropWhile is_space r))
                  else None))"

definition commonSections :: "string list" where
  "commonSections = [''introduction'', ''abstract'', ''conclusion'', ''references'',
     ''appendix'', ''summary'', ''overview'', ''background'']"

text \<open>\<^verbatim>\<open>/^(introduction|...|background)/i.test(paragraph)\<close>.\<close>

definition test_commonSections :: "string \<Rightarrow> bool" where
  "test_commonSections p = list_ex (\<lambda>w. startsWith (toLowerCase p) w) commonSections"

text \<open>GraphIndexer.analyzeParagraph.\<close>

definition analyzeParagraph :: "string \<Rightarrow> para_info" where
  "analyzeParagraph paragraph =
     (case match_markdown paragraph of
        Some (g1, g2) \<Rightarrow> \<lparr>is_heading = True, info_title = g2, info_level = min (length g1) 4\<rparr>
      | None \<Rightarrow>
         (case match_numbered paragraph of
            Some (g1, g3) \<Rightarrow>
              \<lparr>is_heading = True, info_title = g3,
               info_level = min (length (split_char (CHR ''.'') g1)) 4\<rparr>
          | None \<Rightarrow>
              if test_commonSections paragraph \<and> length paragraph < 50
              then \<lparr>is_heading = True, info_title = paragraph, info_level = 1\<rparr>
              else \<lparr>is_heading = False, info_title = [], info_level = 0\<rparr>))"

text \<open>
  A caller-supplied heading pattern, as \<^verbatim>\<open>paragraph.match(pattern)\<close> sees it: no match,
  or a match with its group 1 (which may be undefined).
\<close>

type_synonym heading_pattern = "string \<Rightarrow> string option option"

text \<open>The loop over \<^verbatim>\<open>config.headingPatterns\<close>; \<^verbatim>\<open>match[1] || paragraph\<close>.\<close>

fun match_custom :: "heading_pattern list \<Rightarrow> string \<Rightarrow> para_info option" where
  "match_custom [] paragraph = None"
| "match_custom (pattern # patterns) paragraph =
     (case pattern paragraph of
        Some g1 \<Rightarrow>
          Some \<lparr>is_heading = True,
                info_title = (case g1 of None \<Rightarrow> paragraph
                              | Some t \<Rightarrow> if t = [] then paragraph else t),
                info_level = 1\<rparr>
      | None \<Rightarrow> match_custom patterns paragraph)"

text \<open>\<^verbatim>\<open>/^[A-Z][^.!?]*$/.test(paragraph)\<close>.\<close>

definition test_label :: "string \<Rightarrow> bool" where
  "test_label p =
     (case p of [] \<Rightarrow> False
      | c # cs \<Rightarrow> is_upper c \<and> list_all (\<lambda>x. x \<notin> set ''.!?'') cs)"

definition endsWith_colon :: "string \<Rightarrow> bool" where
  "endsWith_colon p = (p \<noteq> [] \<and> last p = CHR '':'')"

text \<open>\<^verbatim>\<open>paragraph.replace(/[:]+$/, '')\<close>.\<close>

definition strip_colons :: "string \<Rightarrow> string" where
  "strip_colons p = rev (dropWhile (\<lambda>c. c = CHR '':'') (rev p))"

text \<open>The last test of \<^verbatim>\<open>analyzeParagraphForSection\<close>: a short paragraph that looks like a label.\<close>

definition label_like :: "string \<Rightarrow> bool" where
  "label_like paragraph =
     (length paragraph < 100 \<and> length (split_ws paragraph) \<le> 10 \<and>
      (endsWith_colon paragraph \<or> test_label paragraph \<or> paragraph = toUpperCase paragraph))"

text \<open>TreeGenerator.analyzeParagraphForSection.\<close>

definition analyzeParagraphForSection :: "heading_pattern list \<Rightarrow> string \<Rightarrow> para_info" where
  "analyzeParagraphForSection headingPatterns paragraph =
     (case match_custom headingPatterns paragraph of
        Some info \<Rightarrow> info
      | None \<Rightarrow>
         (case match_numbered paragraph of
            Some (g1, g3) \<Rightarrow>
              \<lparr>is_heading = True, info_title = g3,
               info_level = min (length (split_char (CHR ''.'') g1)) 4\<rparr>
          | None \<Rightarrow>
             (case match_markdown paragraph of
                Some (g1, g2) \<Rightarrow>
                  \<lparr>is_heading = True, info_title = g2, info_level = min (length g1) 4\<rparr>
              | None \<Rightarrow>
                  if test_commonSections paragraph \<and> length paragraph < 50
                  then \<lparr>is_heading = True, info_title = paragraph, info_level = 1\<rparr>
                  else if label_like paragraph
                  then \<lparr>is_heading = True, info_title = strip_colons paragraph, info_level = 1\<rparr>
                  else \<lparr>is_heading = False, info_title = [], info_level = 0\<rparr>)))"

section \<open>TreeGenerator\<close>

text \<open>
  \<^verbatim>\<open>TreeNode\<close> and the \<^verbatim>\<open>DocumentNode\<close> used while parsing. \<^verbatim>\<open>generateNodeId\<close> draws a
  random string; here the \<open>k\<close>-th identifier drawn during one call is \<open>gen k\<close>, for a
  generator \<open>gen\<close> passed in. The creation time stamp is not part of the model.
\<close>

datatype tree_node = TreeNode
  (tn_title: string) (tn_nodeId: string) (tn_startIndex: int) (tn_endIndex: int)
  (tn_summary: string) (tn_text: "string option") (tn_children: "tree_node list")

record doc_node =
  dn_title :: string
  dn_nodeId :: string
  dn_startIndex :: int
  dn_endIndex :: int
  dn_summary :: string
  dn_content :: "string list"
  dn_text :: string
  dn_level :: nat
  dn_children :: "tree_node list"

record tree_generator_config =
  maxSummaryLength :: nat
  headingPatterns :: "heading_pattern list"

definition tree_DEFAULT_CONFIG :: tree_generator_config where
  "tree_DEFAULT_CONFIG = \<lparr>maxSummaryLength = 200, headingPatterns = []\<rparr>"

record tree_index =
  ti_title :: string
  ti_description :: "string option"
  ti_nodes :: "tree_node list"

definition splitIntoParagraphs :: "string \<Rightarrow> string list" where
  "splitIntoParagraphs content = filter (\<lambda>p. length p > 0) (map trim (split_blank content))"

definition tree_generateSummary :: "tree_generator_config \<Rightarrow> string list \<Rightarrow> string" where
  "tree_generateSummary cfg content =
     (let text = js_join '' '' content; maxLen = maxSummaryLength cfg
      in if length text \<le> maxLen then text else take (maxLen - 3) text @ ''...'')"

text \<open>The state of the loop of \<^verbatim>\<open>identifySections\<close>.\<close>

record sections_state =
  ss_sections :: "doc_node list"
  ss_currentSection :: "doc_node option"
  ss_currentIndex :: int
  ss_drawn :: nat

definition close_section :: "sections_state \<Rightarrow> doc_node list" where
  "close_section st =
     (case ss_currentSection st of
        None \<Rightarrow> ss_sections st
      | Some cs \<Rightarrow>
          ss_sections st @
            [cs\<lparr>dn_endIndex := ss_currentIndex st - 1,
                dn_text := js_join [CHR 0x0A, CHR 0x0A] (dn_content cs)\<rparr>])"

text \<open>The body of the loop, for one paragraph.\<close>

definition identifySections_step ::
  "tree_generator_config \<Rightarrow> (nat \<Rightarrow> string) \<Rightarrow> string \<Rightarrow> sections_state \<Rightarrow> sections_state" where
  "identifySections_step cfg gen paragraph st =
     (let sectionInfo = analyzeParagraphForSection (headingPatterns cfg) paragraph
      in if is_heading sectionInfo
         then st\<lparr>ss_sections := close_section st,
                 ss_currentSection := Some
                   \<lparr>dn_title = info_title sectionInfo,
                    dn_nodeId = gen (ss_drawn st),
                    dn_startIndex = ss_currentIndex st,
                    dn_endIndex = ss_currentIndex st,
                    dn_summary = tree_generateSummary cfg [paragraph],
                    dn_content = [paragraph],
                    dn_text = paragraph,
                    dn_level = info_level sectionInfo,
                    dn_children = []\<rparr>,
                 ss_drawn := ss_drawn st + 1\<rparr>
         else (case ss_currentSection st of
                 Some cs \<Rightarrow>
                   st\<lparr>ss_currentSection := Some (cs\<lparr>dn_content := dn_content cs @ [paragraph]\<rparr>),
                      ss_currentIndex := ss_currentIndex st + 1\<rparr>
               | None \<Rightarrow>
                   st\<lparr>ss_sections := ss_sections st @
                        [\<lparr>dn_title = ''Section '' @ show_nat (length (ss_sections st) + 1),
                          dn_nodeId = gen (ss_drawn st),
                          dn_startIndex = ss_currentIndex st,
                          dn_endIndex = ss_currentIndex st,
                          dn_summary = tree_generateSummary cfg [paragraph],
                          dn_content = [paragraph],
                          dn_text = paragraph,
                          dn_level = 1,
                          dn_children = []\<rparr>],
                      ss_currentIndex := ss_currentIndex st + 1,
                      ss_drawn := ss_drawn st + 1\<rparr>))"

fun identifySections_loop ::
  "tree_generator_config \<Rightarrow> (nat \<Rightarrow> string) \<Rightarrow> string list \<Rightarrow> sections_state \<Rightarrow> sections_state" where
  "identifySections_loop cfg gen [] st = st"
| "identifySections_loop cfg gen (paragraph # paragraphs) st =
     identifySections_loop cfg gen paragraphs (identifySections_step cfg gen paragraph st)"

definition identifySections_state ::
  "tree_generator_config \<Rightarrow> (nat \<Rightarrow> string) \<Rightarrow> string list \<Rightarrow> sections_state" where
  "identifySections_state cfg gen paragraphs =
     identifySections_loop cfg gen paragraphs
       \<lparr>ss_sections = [], ss_currentSection = None, ss_currentIndex = 0, ss_drawn = 0\<rparr>"

definition identifySections ::
  "tree_generator_config \<Rightarrow> (nat \<Rightarrow> string) \<Rightarrow> string list \<Rightarrow> doc_node list" where
  "identifySections cfg gen paragraphs = close_section (identifySections_state cfg gen paragraphs)"

text \<open>
  \<^verbatim>\<open>buildHierarchy\<close>. The outer loop takes \<^verbatim>\<open>sections[i]\<close>, the inner loop advances
  \<^verbatim>\<open>childrenEndIndex\<close> over the sections of a greater level, the slice between becomes the
  children, and \<open>i\<close> continues at \<^verbatim>\<open>childrenEndIndex\<close>.
\<close>

function buildHierarchy :: "doc_node list \<Rightarrow> nat \<Rightarrow> tree_node list" where
  "buildHierarchy [] minLevel = []"
| "buildHierarchy (currentSection # rest) minLevel =
     (let lv = (if dn_level currentSection = 0 then minLevel else dn_level currentSection);
          childrenSections = takeWhile (\<lambda>s. dn_level s > lv) rest
      in TreeNode (dn_title currentSection) (dn_nodeId currentSection)
           (dn_startIndex currentSection) (dn_endIndex currentSection)
           (dn_summary currentSection)
           (Some (if dn_text currentSection = []
                  then js_join [CHR 0x0A, CHR 0x0A] (dn_content currentSection)
                  else dn_text currentSection))
           (buildHierarchy childrenSections (minLevel + 1))
         # buildHierarchy (dropWhile (\<lambda>s. dn_level s > lv) rest) minLevel)"
  by pat_completeness auto
termination
  by (relation "measure (\<lambda>(ss, m). length ss)")
     (auto simp: length_dropWhile_le less_Suc_eq_le intro: order_trans [OF length_takeWhile_le])

definition buildNodes ::
  "tree_generator_config \<Rightarrow> (nat \<Rightarrow> string) \<Rightarrow> nat \<Rightarrow> doc_node list \<Rightarrow> string \<Rightarrow> tree_node list" where
  "buildNodes cfg gen k secs title =
     (if length secs = 0 then []
      else [TreeNode title (gen k) 0 (int (length secs) - 1)
              (tree_generateSummary cfg (concat (map dn_content secs)))
              (Some (js_join [CHR 0x0A, CHR 0x0A] (concat (map dn_content secs))))
              (buildHierarchy secs 0)])"

definition generateTree ::
  "tree_generator_config \<Rightarrow> (nat \<Rightarrow> string) \<Rightarrow> string \<Rightarrow> string \<Rightarrow> string option \<Rightarrow> tree_index" where
  "generateTree cfg gen content title description =
     (let paragraphs = splitIntoParagraphs content;
          st = identifySections_state cfg gen paragraphs;
          secs = close_section st;
          nodes = buildNodes cfg gen (ss_drawn st) secs title
      in \<lparr>ti_title = title, ti_description = description, ti_nodes = nodes\<rparr>)"

section \<open>The graph data model\<close>

datatype node_type = Document | Section | Paragraph | Reference

datatype edge_type = ParentChild | Semantic | ReferenceEdge | CrossLink

text \<open>The optional \<^verbatim>\<open>metadata\<close> bag of a node; each of its fields is optional too.\<close>

record node_metadata =
  md_level :: "nat option"
  md_keywords :: "string list option"
  md_centrality :: "real option"

record node_position =
  pos_start :: real
  pos_end :: real

record graph_node =
  nodeId :: string
  title :: string
  content :: string
  summary :: string
  ntype :: node_type
  position :: node_position
  metadata :: "node_metadata option"

record graph_edge =
  e_from :: string
  e_to :: string
  weight :: real
  etype :: edge_type

record graph_index =
  g_title :: string
  g_description :: "string option"
  nodes :: "graph_node list"
  edges :: "graph_edge list"
  nodeCount :: nat
  edgeCount :: nat

text \<open>\<^verbatim>\<open>PathResult\<close>; the \<^verbatim>\<open>reasoning\<close> text is not part of the model.\<close>

record path_result =
  nodeIds :: "string list"
  distance :: real
  pathScore :: real

text \<open>\<^verbatim>\<open>BMSSPOptions\<close>: every field is optional.\<close>

record bmssp_options =
  opt_maxDepth :: "real option"
  opt_maxResults :: "nat option"
  opt_minEdgeWeight :: "real option"

text \<open>\<^verbatim>\<open>graph.nodes.find(n => n.nodeId === id)\<close>.\<close>

definition find_node :: "graph_index \<Rightarrow> string \<Rightarrow> graph_node option" where
  "find_node graph nid = find (\<lambda>n. nodeId n = nid) (nodes graph)"

text \<open>\<^verbatim>\<open>node.metadata?.keywords || []\<close>.\<close>

definition keywords_of :: "graph_node \<Rightarrow> string list" where
  "keywords_of node =
     (case metadata node of None \<Rightarrow> []
      | Some m \<Rightarrow> (case md_keywords m of None \<Rightarrow> [] | Some ks \<Rightarrow> ks))"

text \<open>\<^verbatim>\<open>node.metadata?.centrality || 0.5\<close>: a missing centrality and a zero one give 0.5.\<close>

definition centrality_or_half :: "graph_node \<Rightarrow> real" where
  "centrality_or_half node =
     (case metadata node of None \<Rightarrow> 0.5
      | Some m \<Rightarrow> (case md_centrality m of None \<Rightarrow> 0.5 | Some c \<Rightarrow> if c = 0 then 0.5 else c))"

section \<open>GraphIndexer\<close>

text \<open>The configuration after the defaults are merged in.\<close>

record graph_indexer_config =
  maxDepth :: real
  maxResults :: nat
  enableCrossReferences :: bool
  precomputeRelationships :: bool
  minEdgeWeight :: real

definition graph_DEFAULT_CONFIG :: graph_indexer_config where
  "graph_DEFAULT_CONFIG =
     \<lparr>maxDepth = 3, maxResults = 10, enableCrossReferences = True,
      precomputeRelationships = True, minEdgeWeight = 0.1\<rparr>"

definition graph_generateSummary :: "string list \<Rightarrow> string" where
  "graph_generateSummary parts =
     (let text = js_join '' '' parts
      in if length text \<le> 200 then text else take (200 - 3) text @ ''...'')"

text \<open>\<^verbatim>\<open>text.replace(/[^\w\s]/g, ' ')\<close>.\<close>

definition strip_punctuation :: "string \<Rightarrow> string" where
  "strip_punctuation s = map (\<lambda>c. if is_word_char c \<or> is_space c then c else CHR '' '') s"

definition extractKeywords :: "string \<Rightarrow> string list" where
  "extractKeywords text =
     take 10 (filter (\<lambda>word. length word > 3) (split_ws (strip_punctuation (toLowerCase text))))"

text \<open>The section nodes of \<^verbatim>\<open>createGraphNodes\<close>, from paragraph \<open>currentIndex\<close> on.\<close>

fun section_nodes :: "(nat \<Rightarrow> string) \<Rightarrow> nat \<Rightarrow> nat \<Rightarrow> string list \<Rightarrow> graph_node list" where
  "section_nodes gen k currentIndex [] = []"
| "section_nodes gen k currentIndex (paragraph # paragraphs) =
     (let sectionInfo = analyzeParagraph paragraph
      in if is_heading sectionInfo
         then \<lparr>nodeId = ''node_'' @ gen k,
               title = info_title sectionInfo,
               content = paragraph,
               summary = graph_generateSummary [paragraph],
               ntype = Section,
               position = \<lparr>pos_start = real currentIndex, pos_end = real currentIndex\<rparr>,
               metadata = Some \<lparr>md_level = Some (info_level sectionInfo),
                                 md_keywords = Some (extractKeywords paragraph),
                                 md_centrality = None\<rparr>\<rparr>
              # section_nodes gen (k + 1) (currentIndex + 1) paragraphs
         else section_nodes gen k (currentIndex + 1) paragraphs)"

definition createGraphNodes :: "(nat \<Rightarrow> string) \<Rightarrow> string list \<Rightarrow> string \<Rightarrow> graph_node list" where
  "createGraphNodes gen paragraphs ttl =
     \<lparr>nodeId = ''node_'' @ gen 0,
      title = ttl,
      content = js_join [CHR 0x0A, CHR 0x0A] paragraphs,
      summary = graph_generateSummary paragraphs,
      ntype = Document,
      position = \<lparr>pos_start = 0, pos_end = real (length paragraphs) - 1\<rparr>,
      metadata = Some \<lparr>md_level = Some 0, md_keywords = None, md_centrality = None\<rparr>\<rparr>
     # section_nodes gen 1 0 paragraphs"

text \<open>GraphIndexer.calculateSemanticSimilarity.\<close>

definition calculateSemanticSimilarity :: "graph_node \<Rightarrow> graph_node \<Rightarrow> real" where
  "calculateSemanticSimilarity node1 node2 =
     (let keywords1 = keywords_of node1; keywords2 = keywords_of node2
      in if length keywords1 = 0 \<or> length keywords2 = 0 then 0
         else real (length (filter (\<lambda>k. k \<in> set keywords2) keywords1))
              / real (length (remdups (keywords1 @ keywords2))))"

text \<open>The first loop of \<^verbatim>\<open>identifyRelationships\<close>, over \<^verbatim>\<open>nodes[1..]\<close>.\<close>

fun parent_child_edges :: "graph_node \<Rightarrow> graph_node list \<Rightarrow> graph_edge list" where
  "parent_child_edges parent [] = []"
| "parent_child_edges parent (child # rest) =
     (if ntype child = Section
      then \<lparr>e_from = nodeId parent, e_to = nodeId child, weight = 0.8, etype = ParentChild\<rparr>
           # parent_child_edges parent rest
      else parent_child_edges parent rest)"

text \<open>The inner loop over \<open>j\<close> for one \<open>i\<close>, and the loop over \<open>i\<close>.\<close>

fun semantic_edges_from :: "real \<Rightarrow> graph_node \<Rightarrow> graph_node list \<Rightarrow> graph_edge list" where
  "semantic_edges_from minW ni [] = []"
| "semantic_edges_from minW ni (nj # rest) =
     (if calculateSemanticSimilarity ni nj > minW
      then \<lparr>e_from = nodeId ni, e_to = nodeId nj,
            weight = calculateSemanticSimilarity ni nj, etype = Semantic\<rparr>
           # semantic_edges_from minW ni rest
      else semantic_edges_from minW ni rest)"

fun semantic_edges :: "real \<Rightarrow> graph_node list \<Rightarrow> graph_edge list" where
  "semantic_edges minW [] = []"
| "semantic_edges minW (ni # rest) = semantic_edges_from minW ni rest @ semantic_edges minW rest"

definition identifyRelationships :: "graph_indexer_config \<Rightarrow> graph_node list \<Rightarrow> graph_edge list" where
  "identifyRelationships cfg ns =
     (if \<not> enableCrossReferences cfg then []
      else (case ns of
              [] \<Rightarrow> []
            | parent # rest \<Rightarrow>
                parent_child_edges parent rest @ semantic_edges (minEdgeWeight cfg) rest))"

definition calculateNodeCentrality :: "string \<Rightarrow> graph_edge list \<Rightarrow> real" where
  "calculateNodeCentrality nid es =
     min (real (length (filter (\<lambda>e. e_from e = nid \<or> e_to e = nid) es)) / 10) 1"

definition precomputeNodeRelationships :: "graph_node list \<Rightarrow> graph_edge list \<Rightarrow> graph_node list" where
  "precomputeNodeRelationships ns es =
     map (\<lambda>node.
            node\<lparr>metadata := Some
              ((case metadata node of
                  None \<Rightarrow> \<lparr>md_level = None, md_keywords = None, md_centrality = None\<rparr>
                | Some m \<Rightarrow> m)
               \<lparr>md_centrality := Some (calculateNodeCentrality (nodeId node) es)\<rparr>)\<rparr>) ns"

text \<open>GraphIndexer.index.\<close>

definition index ::
  "graph_indexer_config \<Rightarrow> (nat \<Rightarrow> string) \<Rightarrow> string \<Rightarrow> string \<Rightarrow> string option \<Rightarrow> graph_index" where
  "index cfg gen cont ttl description =
     (let paragraphs = splitIntoParagraphs cont;
          ns = createGraphNodes gen paragraphs ttl;
          es = identifyRelationships cfg ns;
          ns' = (if precomputeRelationships cfg then precomputeNodeRelationships ns es else ns)
      in \<lparr>g_title = ttl, g_description = description, nodes = ns', edges = es,
          nodeCount = length ns', edgeCount = length es\<rparr>)"

text \<open>The records \<^verbatim>\<open>retrieveContent\<close> returns.\<close>

record retrieved =
  r_nodeId :: string
  r_title :: string
  r_content :: string
  r_summary :: string

text \<open>
  GraphIndexer.retrieveContent: \<^verbatim>\<open>map\<close> to the found node or \<^verbatim>\<open>undefined\<close>,
  \<^verbatim>\<open>filter(Boolean)\<close>, \<^verbatim>\<open>map\<close> to the record. The callback of the last \<^verbatim>\<open>map\<close> reads four
  properties of its argument (\<^verbatim>\<open>node!.nodeId\<close> and so on; the \<^verbatim>\<open>!\<close> is erased at run time).
\<close>

definition content_record :: "graph_node option \<Rightarrow> js_error + retrieved" where
  "content_record node =
     (case read_property node nodeId of Inl e \<Rightarrow> Inl e | Inr i \<Rightarrow>
      case read_property node title of Inl e \<Rightarrow> Inl e | Inr t \<Rightarrow>
      case read_property node content of Inl e \<Rightarrow> Inl e | Inr c \<Rightarrow>
      case read_property node summary of Inl e \<Rightarrow> Inl e | Inr s \<Rightarrow>
        Inr \<lparr>r_nodeId = i, r_title = t, r_content = c, r_summary = s\<rparr>)"

definition retrieveContent :: "graph_index \<Rightarrow> string list \<Rightarrow> js_error + retrieved list" where
  "retrieveContent graph ids =
     map_throwing content_record
       (filter (\<lambda>found. found \<noteq> None) (map (find_node graph) ids))"

section \<open>SimpleSearch\<close>

definition tokenize :: "string \<Rightarrow> string list" where
  "tokenize text =
     filter (\<lambda>tk. length tk > 1) (split_ws (strip_punctuation (toLowerCase text)))"

text \<open>One pass of the loop over the query terms in \<^verbatim>\<open>scoreNode\<close>.\<close>

definition score_term :: "tree_node \<Rightarrow> string list \<Rightarrow> string list \<Rightarrow> string list \<Rightarrow> real \<Rightarrow> string \<Rightarrow> real" where
  "score_term node titleTerms summaryTerms textTerms score queryTerm =
     (let score1 = (if queryTerm \<in> set titleTerms then score + 10 else score);
          score2 = (if js_includes (toLowerCase (tn_title node)) queryTerm then score1 + 5 else score1);
          summaryCount = length (filter (\<lambda>t. t = queryTerm) summaryTerms);
          score3 = score2 + real summaryCount * 2;
          textCount = length (filter (\<lambda>t. t = queryTerm) textTerms)
      in score3 + min (real textCount * 0.5) 5)"

definition scoreNode :: "tree_node \<Rightarrow> string list \<Rightarrow> real" where
  "scoreNode node queryTerms =
     (let titleTerms = tokenize (tn_title node);
          summaryTerms = tokenize (tn_summary node);
          textTerms = (case tn_text node of
                         None \<Rightarrow> []
                       | Some t \<Rightarrow> if t = [] then [] else tokenize t);
          score = foldl (score_term node titleTerms summaryTerms textTerms) 0 queryTerms;
          queryPhrase = js_join '' '' queryTerms
      in if js_includes (toLowerCase (tn_title node)) queryPhrase then score + 15 else score)"

fun flatten_node :: "tree_node \<Rightarrow> tree_node list" where
  "flatten_node (TreeNode t i s e sm tx ch) =
     TreeNode t i s e sm tx ch # concat (map flatten_node ch)"

definition flattenTree :: "tree_node list \<Rightarrow> tree_node list" where
  "flattenTree ns = concat (map flatten_node ns)"

text \<open>
  SimpleSearch.search, with \<open>maxResults\<close> of the merged configuration. Of the result only
  \<^verbatim>\<open>nodeList\<close> is modelled; \<open>scored_nodes\<close> is the list before \<^verbatim>\<open>slice\<close>.
\<close>

definition scored_nodes :: "tree_index \<Rightarrow> string \<Rightarrow> (tree_node \<times> real) list" where
  "scored_nodes tree query =
     (let queryTerms = tokenize query;
          allNodes = flattenTree (ti_nodes tree);
          scoredNodes = map (\<lambda>node. (node, scoreNode node queryTerms)) allNodes
      in js_sort (\<lambda>a b. snd b - snd a) (filter (\<lambda>s. snd s > 0) scoredNodes))"

definition search :: "nat \<Rightarrow> tree_index \<Rightarrow> string \<Rightarrow> string list" where
  "search maxRes tree query =
     (let topNodes = take maxRes (scored_nodes tree query)
      in map (\<lambda>s. tn_nodeId (fst s)) topNodes)"

section \<open>BMSSP, the plain variant\<close>

record neighbor =
  nb_nodeId :: string
  nb_weight :: real

record queue_item =
  q_nodeId :: string
  q_distance :: real
  q_path :: "string list"
  q_visited :: "string set"

record bmssp_state =
  b_queue :: "queue_item list"
  b_results :: "path_result list"
  b_visitedPaths :: "string set"

definition getValidNeighbors :: "string \<Rightarrow> graph_index \<Rightarrow> string set \<Rightarrow> real \<Rightarrow> neighbor list" where
  "getValidNeighbors nid graph visited minWeight =
     map (\<lambda>e. \<lparr>nb_nodeId = e_to e, nb_weight = weight e\<rparr>)
       (filter (\<lambda>e. e_from e = nid \<and> e_to e \<notin> visited \<and> weight e \<ge> minWeight) (edges graph))
     @ map (\<lambda>e. \<lparr>nb_nodeId = e_from e, nb_weight = weight e\<rparr>)
       (filter (\<lambda>e. e_to e = nid \<and> e_from e \<notin> visited \<and> weight e \<ge> minWeight) (edges graph))"

text \<open>The loop of \<^verbatim>\<open>calculatePathScore\<close> that sums the weights of the edges of a path.\<close>

fun edgeWeightSum :: "graph_index \<Rightarrow> string list \<Rightarrow> real" where
  "edgeWeightSum graph (a # b # rest) =
     (case find (\<lambda>e. (e_from e = a \<and> e_to e = b) \<or> (e_from e = b \<and> e_to e = a)) (edges graph) of
        Some e \<Rightarrow> weight e
      | None \<Rightarrow> 0) + edgeWeightSum graph (b # rest)"
| "edgeWeightSum graph p = 0"

text \<open>\<^verbatim>\<open>path.map(nodeId => node ? (node.metadata?.centrality || 0.5) : 0)\<close>.\<close>

definition nodeScores :: "graph_index \<Rightarrow> string list \<Rightarrow> real list" where
  "nodeScores graph p =
     map (\<lambda>nid. case find_node graph nid of Some node \<Rightarrow> centrality_or_half node | None \<Rightarrow> 0) p"

definition calculatePathScore :: "string list \<Rightarrow> graph_index \<Rightarrow> real" where
  "calculatePathScore p graph =
     (if length p < 2 then 0
      else (let avgNodeScore = sum_list (nodeScores graph p) / real (length (nodeScores graph p));
                totalScore = (edgeWeightSum graph p / (real (length p) - 1)) * 0.7 + avgNodeScore * 0.3
            in min totalScore 1))"

text \<open>The loop over the neighbours, pushing the new queue entries.\<close>

fun push_neighbors :: "queue_item \<Rightarrow> neighbor list \<Rightarrow> queue_item list" where
  "push_neighbors current [] = []"
| "push_neighbors current (nb # nbs) =
     (if nb_nodeId nb \<notin> q_visited current
      then [\<lparr>q_nodeId = nb_nodeId nb,
             q_distance = q_distance current + nb_weight nb,
             q_path = q_path current @ [nb_nodeId nb],
             q_visited = insert (nb_nodeId nb) (q_visited current)\<rparr>]
      else [])
     @ push_neighbors current nbs"

text \<open>One pass of the main loop: sort, shift, and the body.\<close>

definition bmssp_step :: "graph_index \<Rightarrow> real \<Rightarrow> real \<Rightarrow> bmssp_state \<Rightarrow> bmssp_state" where
  "bmssp_step graph maxD minW st =
     (case js_sort (\<lambda>a b. q_distance a - q_distance b) (b_queue st) of
        [] \<Rightarrow> st
      | current # rest \<Rightarrow>
          if q_distance current > maxD then st\<lparr>b_queue := rest\<rparr>
          else (let pathSignature = js_join ''->'' (q_path current)
                in if pathSignature \<in> b_visitedPaths st then st\<lparr>b_queue := rest\<rparr>
                   else st\<lparr>b_queue := rest @ push_neighbors current
                                (getValidNeighbors (q_nodeId current) graph (q_visited current) minW),
                           b_results :=
                             (if length (q_path current) > 1
                              then b_results st @
                                [\<lparr>nodeIds = q_path current, distance = q_distance current,
                                  pathScore = calculatePathScore (q_path current) graph\<rparr>]
                              else b_results st),
                           b_visitedPaths := insert pathSignature (b_visitedPaths st)\<rparr>))"

text \<open>
  The identifiers an entry can still reach: the endpoints of the edges that its path has
  not visited. Every pass takes one entry off the queue and adds entries that can reach
  strictly fewer, which is why the loop ends.
\<close>

definition endpoints :: "graph_index \<Rightarrow> string set" where
  "endpoints graph = set (map e_from (edges graph)) \<union> set (map e_to (edges graph))"

definition remaining :: "graph_index \<Rightarrow> string set \<Rightarrow> nat" where
  "remaining graph visited = card (endpoints graph - visited)"

lemma mset_js_insert: "mset (js_insert cmp x ys) = add_mset x (mset ys)"
  by (induction ys) auto

lemma mset_js_sort: "mset (js_sort cmp xs) = mset xs"
  unfolding js_sort_def by (induction xs) (auto simp: mset_js_insert)

lemma set_js_sort: "set (js_sort cmp xs) = set xs"
  using mset_js_sort [of cmp xs] by (metis set_mset_mset)

lemma getValidNeighbors_fresh:
  "nb \<in> set (getValidNeighbors nid graph visited minW) \<Longrightarrow>
     nb_nodeId nb \<in> endpoints graph - visited"
  by (auto simp: getValidNeighbors_def endpoints_def)

lemma remaining_insert_less:
  assumes n: "n \<in> endpoints graph - visited"
  shows "remaining graph (insert n visited) < remaining graph visited"
proof -
  have fin: "finite (endpoints graph - visited)" by (simp add: endpoints_def)
  have "endpoints graph - insert n visited \<subset> endpoints graph - visited" using n by auto
  then show ?thesis unfolding remaining_def using fin by (rule psubset_card_mono [rotated])
qed

lemma push_neighbors_remaining:
  "\<forall>nb \<in> set nbs. nb_nodeId nb \<in> endpoints graph - q_visited current \<Longrightarrow>
   it \<in> set (push_neighbors current nbs) \<Longrightarrow>
   remaining graph (q_visited it) < remaining graph (q_visited current)"
  by (induction nbs) (auto simp: remaining_insert_less split: if_splits)

lemma bmssp_step_queue:
  assumes q: "js_sort (\<lambda>a b. q_distance a - q_distance b) (b_queue st) = current # rest"
  shows "b_queue (bmssp_step graph maxD minW st) = rest \<or>
         b_queue (bmssp_step graph maxD minW st) =
           rest @ push_neighbors current
             (getValidNeighbors (q_nodeId current) graph (q_visited current) minW)"
  unfolding bmssp_step_def q by (simp add: Let_def)

lemma bmssp_step_decreases:
  assumes "b_queue st \<noteq> []"
  shows "(mset (map (\<lambda>it. remaining graph (q_visited it)) (b_queue (bmssp_step graph maxD minW st))),
          mset (map (\<lambda>it. remaining graph (q_visited it)) (b_queue st))) \<in> mult1 less_than"
proof -
  let ?r = "\<lambda>it. remaining graph (q_visited it)"
  let ?q = "js_sort (\<lambda>a b. q_distance a - q_distance b) (b_queue st)"
  have perm: "mset ?q = mset (b_queue st)" by (rule mset_js_sort)
  then have "?q \<noteq> []" using assms by (metis mset_zero_iff)
  then obtain current rest where q: "?q = current # rest" by (cases ?q) auto
  have old: "mset (map ?r (b_queue st)) = add_mset (?r current) (mset (map ?r rest))"
    using perm q by (metis mset.simps(2) mset_map list.simps(9))
  let ?new = "push_neighbors current
    (getValidNeighbors (q_nodeId current) graph (q_visited current) minW)"
  have small: "\<And>b. b \<in># mset (map ?r ?new) \<Longrightarrow> (b, ?r current) \<in> less_than"
    using push_neighbors_remaining [of _ graph current] getValidNeighbors_fresh
    by fastforce
  from bmssp_step_queue [OF q, of graph maxD minW] show ?thesis
  proof
    assume "b_queue (bmssp_step graph maxD minW st) = rest"
    then have "mset (map ?r (b_queue (bmssp_step graph maxD minW st))) = mset (map ?r rest) + {#}"
      by simp
    with old show ?thesis by (intro mult1I [where K = "{#}"]) auto
  next
    assume "b_queue (bmssp_step graph maxD minW st) = rest @ ?new"
    then have "mset (map ?r (b_queue (bmssp_step graph maxD minW st))) =
        mset (map ?r rest) + mset (map ?r ?new)"
      by simp
    with old small show ?thesis by (intro mult1I [where K = "mset (map ?r ?new)"]) auto
  qed
qed

text \<open>\<^verbatim>\<open>while (queue.length > 0 && results.length < maxResults)\<close>.\<close>

function bmssp_loop :: "graph_index \<Rightarrow> real \<Rightarrow> nat \<Rightarrow> real \<Rightarrow> bmssp_state \<Rightarrow> bmssp_state" where
  "bmssp_loop graph maxD maxRes minW st =
     (if length (b_queue st) > 0 \<and> length (b_results st) < maxRes
      then bmssp_loop graph maxD maxRes minW (bmssp_step graph maxD minW st)
      else st)"
  by pat_completeness auto
termination
  by (relation "inv_image (mult1 less_than)
        (\<lambda>(graph, maxD, maxRes, minW, st).
           mset (map (\<lambda>it. remaining graph (q_visited it)) (b_queue st)))")
     (auto simp: wf_mult1 simp del: mset_map intro!: bmssp_step_decreases)

declare bmssp_loop.simps [simp del]

text \<open>The queue before the loop: one entry for every source identifier that names a node.\<close>

fun seed_queue :: "graph_index \<Rightarrow> string list \<Rightarrow> queue_item list" where
  "seed_queue graph [] = []"
| "seed_queue graph (sourceId # sourceIds) =
     (case find_node graph sourceId of
        Some sourceNode \<Rightarrow>
          [\<lparr>q_nodeId = sourceId, q_distance = 0, q_path = [sourceId], q_visited = {sourceId}\<rparr>]
      | None \<Rightarrow> [])
     @ seed_queue graph sourceIds"

definition option_maxDepth :: "bmssp_options \<Rightarrow> real" where
  "option_maxDepth options = (case opt_maxDepth options of None \<Rightarrow> 3 | Some d \<Rightarrow> d)"

definition option_maxResults :: "bmssp_options \<Rightarrow> nat" where
  "option_maxResults options = (case opt_maxResults options of None \<Rightarrow> 10 | Some n \<Rightarrow> n)"

definition option_minEdgeWeight :: "bmssp_options \<Rightarrow> real" where
  "option_minEdgeWeight options = (case opt_minEdgeWeight options of None \<Rightarrow> 0.1 | Some w \<Rightarrow> w)"

text \<open>BMSSPAlgorithm.findBoundedPaths.\<close>

definition findBoundedPaths :: "graph_index \<Rightarrow> string list \<Rightarrow> bmssp_options \<Rightarrow> path_result list" where
  "findBoundedPaths graph sourceNodeIds options =
     (let st = bmssp_loop graph (option_maxDepth options) (option_maxResults options)
                 (option_minEdgeWeight options)
                 \<lparr>b_queue = seed_queue graph sourceNodeIds, b_results = [], b_visitedPaths = {}\<rparr>
      in take (option_maxResults options)
           (js_sort (\<lambda>a b. pathScore b - pathScore a) (b_results st)))"

section \<open>BMSSP, the selective variant\<close>

record optimized_queue_item =
  oq_nodeId :: string
  oq_distance :: real
  oq_path :: "string list"
  oq_visited :: "string set"
  activationScore :: real
  parentScore :: real

record optimized_state =
  o_queue :: "optimized_queue_item list"
  o_results :: "path_result list"
  o_visitedPaths :: "string set"
  o_activatedNodes :: "string set"

text \<open>OptimizedBMSSPAlgorithm.calculateSemanticSimilarity.\<close>

definition optimized_calculateSemanticSimilarity :: "graph_node \<Rightarrow> graph_node \<Rightarrow> real" where
  "optimized_calculateSemanticSimilarity node1 node2 =
     (let keywords1 = keywords_of node1; keywords2 = keywords_of node2
      in if length keywords1 = 0 \<or> length keywords2 = 0 then 0
         else real (length (filter (\<lambda>k. k \<in> set keywords2) keywords1))
              / real (max (length (remdups (keywords1 @ keywords2))) 1))"

definition calculateNodeActivationScore :: "graph_node \<Rightarrow> string list \<Rightarrow> graph_index \<Rightarrow> real" where
  "calculateNodeActivationScore node sourceNodeIds graph =
     (let cent = centrality_or_half node;
          sourceNodes = filter (\<lambda>n. nodeId n \<in> set sourceNodeIds) (nodes graph);
          semanticSimilarity =
            (case map (\<lambda>source. optimized_calculateSemanticSimilarity node source) sourceNodes of
               [] \<Rightarrow> 0
             | x # xs \<Rightarrow> fold max xs x);
          keywordRelevance = (if length (keywords_of node) > 0 then 0.4 else 0);
          typeWeight = (if ntype node = Section then 0.8 else 0.3);
          positionWeight = max 0.7 (1.0 - pos_start (position node) * 0.1);
          combinedScore =
            (cent * 0.25) + (semanticSimilarity * 0.3) + (keywordRelevance * 0.15) +
            (typeWeight * 0.15) + (positionWeight * 0.15)
      in min combinedScore 1.0)"

definition getValidNeighborsWithSelectiveActivation ::
  "string \<Rightarrow> graph_index \<Rightarrow> string set \<Rightarrow> real \<Rightarrow> real \<Rightarrow> neighbor list" where
  "getValidNeighborsWithSelectiveActivation nid graph visited minWeight parentActivationScore =
     (let dynamicThreshold = max minWeight (0.7 - (parentActivationScore * 0.4))
      in js_sort (\<lambda>a b. nb_weight b - nb_weight a)
           (map (\<lambda>e. \<lparr>nb_nodeId = e_to e, nb_weight = weight e\<rparr>)
              (filter (\<lambda>e. e_from e = nid \<and> e_to e \<notin> visited \<and> weight e \<ge> dynamicThreshold)
                 (edges graph))
            @ map (\<lambda>e. \<lparr>nb_nodeId = e_from e, nb_weight = weight e\<rparr>)
              (filter (\<lambda>e. e_to e = nid \<and> e_from e \<notin> visited \<and> weight e \<ge> dynamicThreshold)
                 (edges graph))))"

text \<open>OptimizedBMSSPAlgorithm.calculatePathScore, with its guards against a zero divisor.\<close>

definition optimized_calculatePathScore :: "string list \<Rightarrow> graph_index \<Rightarrow> real" where
  "optimized_calculatePathScore p graph =
     (if length p < 2 then 0
      else (let avgNodeScore =
                  sum_list (nodeScores graph p) / real (max (length (nodeScores graph p)) 1);
                totalScore = (edgeWeightSum graph p / max (real (length p) - 1) 1) * 0.7
                             + avgNodeScore * 0.3
            in min totalScore 1))"

text \<open>
  The loop over the neighbours: the propagated activation score, and the entry pushed when
  that score reaches 0.15.
\<close>

fun activate_neighbors ::
  "graph_index \<Rightarrow> string list \<Rightarrow> optimized_queue_item \<Rightarrow> neighbor list \<Rightarrow> optimized_queue_item list" where
  "activate_neighbors graph sourceNodeIds current [] = []"
| "activate_neighbors graph sourceNodeIds current (nb # nbs) =
     (if nb_nodeId nb \<notin> oq_visited current
      then (let baseScore = (case find_node graph (nb_nodeId nb) of
                               Some neighborNode \<Rightarrow>
                                 calculateNodeActivationScore neighborNode sourceNodeIds graph
                             | None \<Rightarrow> 0.5);
                score = baseScore * nb_weight nb * activationScore current
            in if score \<ge> 0.15
               then [\<lparr>oq_nodeId = nb_nodeId nb,
                      oq_distance = oq_distance current + nb_weight nb,
                      oq_path = oq_path current @ [nb_nodeId nb],
                      oq_visited = insert (nb_nodeId nb) (oq_visited current),
                      activationScore = score,
                      parentScore = activationScore current\<rparr>]
               else [])
      else [])
     @ activate_neighbors graph sourceNodeIds current nbs"

text \<open>The comparator of the queue: higher activation score first, then lower distance.\<close>

definition queue_order :: "optimized_queue_item \<Rightarrow> optimized_queue_item \<Rightarrow> real" where
  "queue_order a b =
     (if activationScore b \<noteq> activationScore a then activationScore b - activationScore a
      else oq_distance a - oq_distance b)"

definition optimized_step ::
  "graph_index \<Rightarrow> string list \<Rightarrow> real \<Rightarrow> real \<Rightarrow> optimized_state \<Rightarrow> optimized_state" where
  "optimized_step graph sourceNodeIds maxD minW st =
     (case js_sort queue_order (o_queue st) of
        [] \<Rightarrow> st
      | current # rest \<Rightarrow>
          if oq_distance current > maxD \<or> activationScore current < 0.25 then st\<lparr>o_queue := rest\<rparr>
          else (let pathSignature = js_join ''->'' (oq_path current)
                in if pathSignature \<in> o_visitedPaths st then st\<lparr>o_queue := rest\<rparr>
                   else (let pushed = activate_neighbors graph sourceNodeIds current
                                (getValidNeighborsWithSelectiveActivation (oq_nodeId current) graph
                                   (oq_visited current) minW (activationScore current))
                         in st\<lparr>o_queue := rest @ pushed,
                                o_results :=
                                  (if length (oq_path current) > 1
                                   then o_results st @
                                     [\<lparr>nodeIds = oq_path current, distance = oq_distance current,
                                       pathScore = optimized_calculatePathScore (oq_path current) graph\<rparr>]
                                   else o_results st),
                                o_visitedPaths := insert pathSignature (o_visitedPaths st),
                                o_activatedNodes := o_activatedNodes st \<union> set (map oq_nodeId pushed)\<rparr>)))"

lemma selective_neighbors_fresh:
  "nb \<in> set (getValidNeighborsWithSelectiveActivation nid graph visited minW score) \<Longrightarrow>
     nb_nodeId nb \<in> endpoints graph - visited"
  by (auto simp: getValidNeighborsWithSelectiveActivation_def Let_def set_js_sort endpoints_def)

lemma activate_neighbors_remaining:
  "\<forall>nb \<in> set nbs. nb_nodeId nb \<in> endpoints graph - oq_visited current \<Longrightarrow>
   it \<in> set (activate_neighbors graph srcs current nbs) \<Longrightarrow>
   remaining graph (oq_visited it) < remaining graph (oq_visited current)"
  by (induction nbs) (auto simp: remaining_insert_less Let_def split: if_splits)

lemma optimized_step_queue:
  assumes q: "js_sort queue_order (o_queue st) = current # rest"
  shows "o_queue (optimized_step graph srcs maxD minW st) = rest \<or>
         o_queue (optimized_step graph srcs maxD minW st) =
           rest @ activate_neighbors graph srcs current
             (getValidNeighborsWithSelectiveActivation (oq_nodeId current) graph
                (oq_visited current) minW (activationScore current))"
  unfolding optimized_step_def q by (simp add: Let_def)

lemma optimized_step_decreases:
  assumes "o_queue st \<noteq> []"
  shows "(mset (map (\<lambda>it. remaining graph (oq_visited it))
                 (o_queue (optimized_step graph srcs maxD minW st))),
          mset (map (\<lambda>it. remaining graph (oq_visited it)) (o_queue st))) \<in> mult1 less_than"
proof -
  let ?r = "\<lambda>it. remaining graph (oq_visited it)"
  let ?q = "js_sort queue_order (o_queue st)"
  have perm: "mset ?q = mset (o_queue st)" by (rule mset_js_sort)
  then have "?q \<noteq> []" using assms by (metis mset_zero_iff)
  then obtain current rest where q: "?q = current # rest" by (cases ?q) auto
  have old: "mset (map ?r (o_queue st)) = add_mset (?r current) (mset (map ?r rest))"
    using perm q by (metis mset.simps(2) mset_map list.simps(9))
  let ?new = "activate_neighbors graph srcs current
    (getValidNeighborsWithSelectiveActivation (oq_nodeId current) graph
       (oq_visited current) minW (activationScore current))"
  have small: "\<And>b. b \<in># mset (map ?r ?new) \<Longrightarrow> (b, ?r current) \<in> less_than"
    using activate_neighbors_remaining [of _ graph current] selective_neighbors_fresh
    by fastforce
  from optimized_step_queue [OF q, of graph srcs maxD minW] show ?thesis
  proof
    assume "o_queue (optimized_step graph srcs maxD minW st) = rest"
    then have "mset (map ?r (o_queue (optimized_step graph srcs maxD minW st))) =
        mset (map ?r rest) + {#}"
      by simp
    with old show ?thesis by (intro mult1I [where K = "{#}"]) auto
  next
    assume "o_queue (optimized_step graph srcs maxD minW st) = rest @ ?new"
    then have "mset (map ?r (o_queue (optimized_step graph srcs maxD minW st))) =
        mset (map ?r rest) + mset (map ?r ?new)"
      by simp
    with old small show ?thesis by (intro mult1I [where K = "mset (map ?r ?new)"]) auto
  qed
qed

function optimized_loop ::
  "graph_index \<Rightarrow> string list \<Rightarrow> real \<Rightarrow> nat \<Rightarrow> real \<Rightarrow> optimized_state \<Rightarrow> optimized_state" where
  "optimized_loop graph sourceNodeIds maxD maxRes minW st =
     (if length (o_queue st) > 0 \<and> length (o_results st) < maxRes
      then optimized_loop graph sourceNodeIds maxD maxRes minW
             (optimized_step graph sourceNodeIds maxD minW st)
      else st)"
  by pat_completeness auto
termination
  by (relation "inv_image (mult1 less_than)
        (\<lambda>(graph, sourceNodeIds, maxD, maxRes, minW, st).
           mset (map (\<lambda>it. remaining graph (oq_visited it)) (o_queue st)))")
     (auto simp: wf_mult1 simp del: mset_map intro!: optimized_step_decreases)

declare optimized_loop.simps [simp del]

text \<open>The queue before the loop; a seed has its own activation score and parent score 1.\<close>

fun optimized_seed_queue ::
  "graph_index \<Rightarrow> string list \<Rightarrow> string list \<Rightarrow> optimized_queue_item list" where
  "optimized_seed_queue graph sourceNodeIds [] = []"
| "optimized_seed_queue graph sourceNodeIds (sourceId # sourceIds) =
     (case find_node graph sourceId of
        Some sourceNode \<Rightarrow>
          [\<lparr>oq_nodeId = sourceId, oq_distance = 0, oq_path = [sourceId],
            oq_visited = {sourceId},
            activationScore = calculateNodeActivationScore sourceNode sourceNodeIds graph,
            parentScore = 1.0\<rparr>]
      | None \<Rightarrow> [])
     @ optimized_seed_queue graph sourceNodeIds sourceIds"

definition optimized_init :: "graph_index \<Rightarrow> string list \<Rightarrow> optimized_state" where
  "optimized_init graph sourceNodeIds =
     \<lparr>o_queue = optimized_seed_queue graph sourceNodeIds sourceNodeIds,
      o_results = [], o_visitedPaths = {},
      o_activatedNodes = set (map oq_nodeId (optimized_seed_queue graph sourceNodeIds sourceNodeIds))\<rparr>"

text \<open>
  OptimizedBMSSPAlgorithm.findBoundedPaths: the paths and \<^verbatim>\<open>activatedNodeCount\<close>. The
  console line is not part of the model.
\<close>

definition optimized_findBoundedPaths ::
  "graph_index \<Rightarrow> string list \<Rightarrow> bmssp_options \<Rightarrow> path_result list \<times> nat" where
  "optimized_findBoundedPaths graph sourceNodeIds options =
     (let st = optimized_loop graph sourceNodeIds (option_maxDepth options)
                 (option_maxResults options) (option_minEdgeWeight options)
                 (optimized_init graph sourceNodeIds)
      in (take (option_maxResults options)
            (js_sort (\<lambda>a b. pathScore b - pathScore a) (o_results st)),
          card (o_activatedNodes st)))"

section \<open>Index ranges in the tree\<close>

text \<open>
  Two nodes overlap when some index lies in both ranges \<open>[startIndex, endIndex]\<close>; a child is
  within its parent when its range lies inside the parent's.
\<close>

definition ranges_overlap :: "tree_node \<Rightarrow> tree_node \<Rightarrow> bool" where
  "ranges_overlap a b =
     (max (tn_startIndex a) (tn_startIndex b) \<le> min (tn_endIndex a) (tn_endIndex b))"

definition range_within :: "tree_node \<Rightarrow> tree_node \<Rightarrow> bool" where
  "range_within child parent =
     (tn_startIndex parent \<le> tn_startIndex child \<and> tn_endIndex child \<le> tn_endIndex parent)"

fun no_overlap_list :: "tree_node list \<Rightarrow> bool" where
  "no_overlap_list [] = True"
| "no_overlap_list (n # ns) = ((\<forall>m \<in> set ns. \<not> ranges_overlap n m) \<and> no_overlap_list ns)"

fun children_within :: "tree_node \<Rightarrow> bool" where
  "children_within (TreeNode t i s e sm tx ch) =
     (\<forall>c \<in> set ch. range_within c (TreeNode t i s e sm tx ch) \<and> children_within c)"

fun siblings_apart :: "tree_node \<Rightarrow> bool" where
  "siblings_apart (TreeNode t i s e sm tx ch) =
     (no_overlap_list ch \<and> (\<forall>c \<in> set ch. siblings_apart c))"

definition tree_siblings_apart :: "tree_node list \<Rightarrow> bool" where
  "tree_siblings_apart ns = (no_overlap_list ns \<and> (\<forall>n \<in> set ns. siblings_apart n))"

text \<open>
  The order in which \<^verbatim>\<open>identifySections\<close> lays the sections out: one ends before the
  next starts. \<open>sections_inv\<close> is the invariant of its loop.
\<close>

definition dn_before :: "doc_node \<Rightarrow> doc_node \<Rightarrow> bool" where
  "dn_before a b = (dn_endIndex a < dn_startIndex b)"

definition tn_before :: "tree_node \<Rightarrow> tree_node \<Rightarrow> bool" where
  "tn_before a b = (tn_endIndex a < tn_startIndex b)"

definition sections_inv :: "sections_state \<Rightarrow> bool" where
  "sections_inv st =
     (sorted_wrt dn_before (ss_sections st) \<and>
      (case ss_currentSection st of
         None \<Rightarrow> (\<forall>s \<in> set (ss_sections st). dn_endIndex s < ss_currentIndex st)
       | Some cs \<Rightarrow> (\<forall>s \<in> set (ss_sections st). dn_endIndex s < dn_startIndex cs) \<and>
                    dn_startIndex cs \<le> ss_currentIndex st))"

text \<open>Two documents used as concrete inputs.\<close>

definition doc_nested :: string where
  "doc_nested = ''# A'' @ [CHR 0x0A, CHR 0x0A] @ ''## B'' @ [CHR 0x0A, CHR 0x0A] @ ''one.''
     @ [CHR 0x0A, CHR 0x0A] @ ''two.''"

definition doc_flat :: string where
  "doc_flat = ''# Intro'' @ [CHR 0x0A, CHR 0x0A] @ ''hello there.'' @ [CHR 0x0A, CHR 0x0A]
     @ ''# Setup'' @ [CHR 0x0A, CHR 0x0A] @ ''run install.''"

section \<open>Parent-child edges of the graph index\<close>

text \<open>The parent-child edges that arrive at a node.\<close>

definition incoming_parent_child :: "graph_index \<Rightarrow> graph_node \<Rightarrow> graph_edge list" where
  "incoming_parent_child graph n =
     filter (\<lambda>e. etype e = ParentChild \<and> e_to e = nodeId n) (edges graph)"

text \<open>Two graphs used as concrete inputs: \<open>doc_flat\<close> indexed with and without cross references.\<close>

definition graph_flat :: graph_index where
  "graph_flat = index graph_DEFAULT_CONFIG show_nat doc_flat ''T'' None"

definition graph_flat_no_xref :: graph_index where
  "graph_flat_no_xref =
     index (graph_DEFAULT_CONFIG\<lparr>enableCrossReferences := False\<rparr>) show_nat doc_flat ''T'' None"

section \<open>Path scoring with its property reads\<close>

text \<open>
  OptimizedBMSSPAlgorithm.calculatePathScore once more, with every property read on the
  result of a \<^verbatim>\<open>find\<close> written out: \<^verbatim>\<open>if (edge) edgeWeightSum += edge.weight\<close> in the loop
  over the path, \<^verbatim>\<open>node ? (node.metadata?.centrality || 0.5) : 0\<close> in the callback of
  \<^verbatim>\<open>path.map\<close>, and \<^verbatim>\<open>nodeScores.reduce((a, b) => a + b, 0)\<close>.
\<close>

fun edgeWeightSum_throwing :: "graph_index \<Rightarrow> string list \<Rightarrow> real \<Rightarrow> js_error + real" where
  "edgeWeightSum_throwing graph (a # b # rest) acc =
     (let edge = find (\<lambda>e. (e_from e = a \<and> e_to e = b) \<or> (e_from e = b \<and> e_to e = a)) (edges graph)
      in if edge \<noteq> None
         then (case read_property edge weight of
                 Inl e \<Rightarrow> Inl e
               | Inr w \<Rightarrow> edgeWeightSum_throwing graph (b # rest) (acc + w))
         else edgeWeightSum_throwing graph (b # rest) acc)"
| "edgeWeightSum_throwing graph p acc = Inr acc"

definition nodeScore_throwing :: "graph_index \<Rightarrow> string \<Rightarrow> js_error + real" where
  "nodeScore_throwing graph nid =
     (let node = find_node graph nid
      in if node \<noteq> None then read_property node centrality_or_half else Inr 0)"

definition calculatePathScore_throwing :: "string list \<Rightarrow> graph_index \<Rightarrow> js_error + real" where
  "calculatePathScore_throwing p graph =
     (if length p < 2 then Inr 0
      else (case edgeWeightSum_throwing graph p 0 of
              Inl e \<Rightarrow> Inl e
            | Inr edgeSum \<Rightarrow>
               (case map_throwing (nodeScore_throwing graph) p of
                  Inl e \<Rightarrow> Inl e
                | Inr scores \<Rightarrow>
                    (let avgNodeScore = foldl (+) 0 scores / real (max (length scores) 1);
                         totalScore = (edgeSum / max (real (length p) - 1) 1) * 0.7
                                      + avgNodeScore * 0.3
                     in Inr (min totalScore 1)))))"

text \<open>
  What the amended claim says \<^verbatim>\<open>retrieveContent\<close> returns: for each identifier in order,
  the record of the node it names, and nothing for an identifier that names no node.
\<close>

definition present_records :: "graph_index \<Rightarrow> string list \<Rightarrow> retrieved list" where
  "present_records graph ids =
     concat (map (\<lambda>nid. case find_node graph nid of
                           None \<Rightarrow> []
                         | Some node \<Rightarrow> [\<lparr>r_nodeId = nodeId node, r_title = title node,
                                          r_content = content node, r_summary = summary node\<rparr>]) ids)"

section \<open>The keyword score, as the specification words it\<close>

text \<open>
  The tokenized full text of a node (none when the node has no text), and the score: 10 for
  every query term that is a title token, 5 for every query term that occurs in the
  lower-cased title, 2 for every occurrence of a query term among the summary tokens, 0.5
  for every occurrence among the text tokens but at most 5 for one query term, and 15 when
  the lower-cased title contains the query terms joined by blanks.
\<close>

definition text_terms :: "tree_node \<Rightarrow> string list" where
  "text_terms node = (case tn_text node of None \<Rightarrow> [] | Some t \<Rightarrow> tokenize t)"

definition spec_score :: "tree_node \<Rightarrow> string list \<Rightarrow> real" where
  "spec_score node queryTerms =
     10 * real (length (filter (\<lambda>q. q \<in> set (tokenize (tn_title node))) queryTerms))
     + 5 * real (length (filter (\<lambda>q. js_includes (toLowerCase (tn_title node)) q) queryTerms))
     + 2 * real (sum_list (map (\<lambda>q. count_list (tokenize (tn_summary node)) q) queryTerms))
     + sum_list (map (\<lambda>q. min (0.5 * real (count_list (text_terms node) q)) 5) queryTerms)
     + (if js_includes (toLowerCase (tn_title node)) (js_join '' '' queryTerms) then 15 else 0)"

text \<open>
  The nodes of a tree, told without a traversal: every root is a node, and every child of a
  node is a node. \<open>occurrences\<close> counts them: a node once, and with it the occurrences in
  each of its children.
\<close>

inductive_set tree_nodes :: "tree_node list \<Rightarrow> tree_node set" for roots :: "tree_node list" where
  root: "n \<in> set roots \<Longrightarrow> n \<in> tree_nodes roots"
| child: "n \<in> tree_nodes roots \<Longrightarrow> c \<in> set (tn_children n) \<Longrightarrow> c \<in> tree_nodes roots"

fun occurrences :: "tree_node \<Rightarrow> tree_node multiset" where
  "occurrences (TreeNode t i s e sm tx ch) =
     add_mset (TreeNode t i s e sm tx ch) (sum_list (map occurrences ch))"

definition tree_occurrences :: "tree_node list \<Rightarrow> tree_node multiset" where
  "tree_occurrences roots = sum_list (map occurrences roots)"

text \<open>A tree with a node below a child of the root.\<close>

definition tree_deep :: tree_index where
  "tree_deep = \<lparr>ti_title = ''T'', ti_description = None,
     ti_nodes = [TreeNode ''Guide'' ''r'' 0 2 ''about nothing'' None
        [TreeNode ''Setup'' ''s'' 0 0 ''Setup'' (Some ''Run install'')
           [TreeNode ''Install steps'' ''i'' 1 1 ''Install steps'' (Some ''install it now'') []],
         TreeNode ''Other'' ''o'' 2 2 ''Other'' (Some ''unrelated words'') []]]\<rparr>"

section \<open>The activation score, as the specification words it\<close>

text \<open>The Jaccard similarity of two keyword sets.\<close>

definition jaccard :: "string list \<Rightarrow> string list \<Rightarrow> real" where
  "jaccard a b =
     (if set a \<union> set b = {} then 0
      else real (card (set a \<inter> set b)) / real (card (set a \<union> set b)))"

text \<open>The centrality value that the metadata of a node carries.\<close>

definition carried_centrality :: "graph_node \<Rightarrow> real" where
  "carried_centrality node =
     (case metadata node of None \<Rightarrow> 0
      | Some m \<Rightarrow> (case md_centrality m of None \<Rightarrow> 0 | Some c \<Rightarrow> c))"

text \<open>
  The activation score as the specification words it: the weighted sum of the carried
  centrality, the greatest Jaccard similarity to a source node, the keyword, type and
  position weights, clamped to \<open>[0, 1]\<close>.
\<close>

definition claimed_activation_score :: "graph_node \<Rightarrow> string list \<Rightarrow> graph_index \<Rightarrow> real" where
  "claimed_activation_score node sourceNodeIds graph =
     min 1 (max 0
       (carried_centrality node * 0.25
        + fold max (map (\<lambda>source. jaccard (keywords_of node) (keywords_of source))
                      (filter (\<lambda>n. nodeId n \<in> set sourceNodeIds) (nodes graph))) 0 * 0.30
        + (if keywords_of node \<noteq> [] then 0.4 else 0) * 0.15
        + (if ntype node = Section then 0.8 else 0.3) * 0.15
        + max 0.7 (1 - pos_start (position node) * 0.1) * 0.15))"

text \<open>A section node without edges, as \<^verbatim>\<open>index\<close> leaves it: its centrality is 0.\<close>

definition node_isolated :: graph_node where
  "node_isolated =
     \<lparr>nodeId = ''z'', title = ''Z'', content = ''alpha'', summary = ''alpha'', ntype = Section,
      position = \<lparr>pos_start = 0, pos_end = 0\<rparr>,
      metadata = Some \<lparr>md_level = Some 1, md_keywords = Some [''alpha''], md_centrality = Some 0\<rparr>\<rparr>"

definition graph_isolated :: graph_index where
  "graph_isolated = \<lparr>g_title = ''G'', g_description = None, nodes = [node_isolated], edges = [],
     nodeCount = 1, edgeCount = 0\<rparr>"

section \<open>What the path search returns\<close>

text \<open>
  The properties of a returned path list: no two paths with the same node sequence, every
  path of at least two nodes and of distance at most \<open>maxDepth\<close>, the scores non-increasing,
  at most \<open>maxResults\<close> paths.
\<close>

definition paths_ok :: "real \<Rightarrow> nat \<Rightarrow> path_result list \<Rightarrow> bool" where
  "paths_ok maxD maxRes ps =
     (distinct (map nodeIds ps) \<and>
      (\<forall>p \<in> set ps. 2 \<le> length (nodeIds p) \<and> distance p \<le> maxD) \<and>
      sorted_wrt (\<lambda>a b. pathScore a \<ge> pathScore b) ps \<and>
      length ps \<le> maxRes)"

text \<open>
  The invariant of the main loop on the results collected so far; \<open>seen\<close> is the set of path
  signatures.
\<close>

definition results_inv :: "real \<Rightarrow> string set \<Rightarrow> path_result list \<Rightarrow> bool" where
  "results_inv maxD seen rs =
     (distinct (map nodeIds rs) \<and>
      (\<forall>r \<in> set rs. 2 \<le> length (nodeIds r) \<and> distance r \<le> maxD \<and>
                      js_join ''->'' (nodeIds r) \<in> seen))"

text \<open>The base score of a neighbour in the selective variant, 0.5 when it names no node.\<close>

definition baseScore_of :: "graph_index \<Rightarrow> string list \<Rightarrow> string \<Rightarrow> real" where
  "baseScore_of graph srcs nid =
     (case find_node graph nid of
        Some neighborNode \<Rightarrow> calculateNodeActivationScore neighborNode srcs graph
      | None \<Rightarrow> 0.5)"

text \<open>A graph of two sections with one edge, and the options with every field left out.\<close>

definition node_a :: graph_node where
  "node_a = \<lparr>nodeId = ''a'', title = ''A'', content = ''alpha beta'', summary = ''alpha beta'',
     ntype = Section, position = \<lparr>pos_start = 0, pos_end = 0\<rparr>,
     metadata = Some \<lparr>md_level = Some 1, md_keywords = Some [''alpha'', ''beta''],
                      md_centrality = Some 1\<rparr>\<rparr>"

definition node_b :: graph_node where
  "node_b = \<lparr>nodeId = ''b'', title = ''B'', content = ''alpha beta'', summary = ''alpha beta'',
     ntype = Section, position = \<lparr>pos_start = 1, pos_end = 1\<rparr>,
     metadata = Some \<lparr>md_level = Some 1, md_keywords = Some [''alpha'', ''beta''],
                      md_centrality = Some 1\<rparr>\<rparr>"

definition graph_pair :: graph_index where
  "graph_pair = \<lparr>g_title = ''G'', g_description = None, nodes = [node_a, node_b],
     edges = [\<lparr>e_from = ''a'', e_to = ''b'', weight = 0.9, etype = Semantic\<rparr>],
     nodeCount = 2, edgeCount = 1\<rparr>"

definition default_options :: bmssp_options where
  "default_options = \<lparr>opt_maxDepth = None, opt_maxResults = None, opt_minEdgeWeight = None\<rparr>"

text \<open>A state whose only queue entry has an activation score between 0.15 and 0.25.\<close>

definition state_low :: optimized_state where
  "state_low =
     \<lparr>o_queue = [\<lparr>oq_nodeId = ''b'', oq_distance = 0.9, oq_path = [''a'', ''b''],
                  oq_visited = {''a'', ''b''}, activationScore = 0.2, parentScore = 0.3\<rparr>],
      o_results = [], o_visitedPaths = {''a''}, o_activatedNodes = {''a'', ''b''}\<rparr>"

text \<open>
  \<open>enqueues\<close>: a pass of the selective loop that pops \<open>parent\<close> expands it and pushes
  \<open>entry\<close>. The weight of the edge traversed from \<open>parent\<close> to \<open>entry\<close> is the distance the
  entry adds to its parent's. \<open>along_path\<close>: a path of the search, each entry pushed from
  the one before over an edge of weight in \<open>[0, 1]\<close>.
\<close>

definition enqueues ::
  "graph_index \<Rightarrow> string list \<Rightarrow> real \<Rightarrow> real \<Rightarrow> optimized_queue_item \<Rightarrow> optimized_queue_item \<Rightarrow> bool" where
  "enqueues graph srcs maxD minW parent entry =
     (\<not> (oq_distance parent > maxD \<or> activationScore parent < 0.25) \<and>
      entry \<in> set (activate_neighbors graph srcs parent
         (getValidNeighborsWithSelectiveActivation (oq_nodeId parent) graph (oq_visited parent)
            minW (activationScore parent))))"

definition traversed_weight :: "optimized_queue_item \<Rightarrow> optimized_queue_item \<Rightarrow> real" where
  "traversed_weight parent entry = oq_distance entry - oq_distance parent"

fun along_path ::
  "graph_index \<Rightarrow> string list \<Rightarrow> real \<Rightarrow> real \<Rightarrow> optimized_queue_item list \<Rightarrow> bool" where
  "along_path graph srcs maxD minW (x # y # rest) =
     (enqueues graph srcs maxD minW x y \<and>
      0 \<le> traversed_weight x y \<and> traversed_weight x y \<le> 1 \<and>
      along_path graph srcs maxD minW (y # rest))"
| "along_path graph srcs maxD minW es = True"

text \<open>\<open>graph_pair\<close> with one more edge, of weight \<open>-1\<close>, which the search never traverses.\<close>

definition graph_stray :: graph_index where
  "graph_stray = graph_pair\<lparr>edges := edges graph_pair @
     [\<lparr>e_from = ''a'', e_to = ''c'', weight = - 1, etype = Semantic\<rparr>], edgeCount := 2\<rparr>"

section \<open>The two heading classifiers compared\<close>

lemma markdown_excludes_numbered:
  assumes "match_markdown p = Some g"
  shows "match_numbered p = None"
proof -
  from assms have "takeWhile (\<lambda>c. c = CHR ''#'') p \<noteq> []"
    by (auto simp: match_markdown_def Let_def split: if_splits)
  then obtain cs where "p = CHR ''#'' # cs"
    by (cases p) (auto split: if_splits)
  then show ?thesis by (simp add: match_numbered_def is_digit_def)
qed

text \<open>
  Claim C9, as amended. The classifier of GraphIndexer and the classifier of TreeGenerator
  (with no custom patterns) agree on every paragraph that GraphIndexer takes for a heading:
  TreeGenerator takes it for a heading too, with the same title and level. On the other
  paragraphs TreeGenerator has one more test: it takes exactly the label-like ones for
  headings, GraphIndexer none.
\<close>

theorem classifiers_agree_on_graph_headings:
  "(is_heading (analyzeParagraph p) \<longrightarrow> analyzeParagraphForSection [] p = analyzeParagraph p) \<and>
   (\<not> is_heading (analyzeParagraph p) \<longrightarrow>
      is_heading (analyzeParagraphForSection [] p) = label_like p)"
proof (cases "match_markdown p")
  case None
  then show ?thesis
    by (auto simp: analyzeParagraph_def analyzeParagraphForSection_def split: option.splits)
next
  case (Some g)
  then have "match_numbered p = None" by (rule markdown_excludes_numbered)
  with Some show ?thesis
    by (auto simp: analyzeParagraph_def analyzeParagraphForSection_def
             split: option.splits prod.splits)
qed

theorem classifiers_agree_witness:
  "is_heading (analyzeParagraph ''# Intro'') \<and>
   analyzeParagraphForSection [] ''# Intro'' = analyzeParagraph ''# Intro'' \<and>
   \<not> is_heading (analyzeParagraph ''plain words.'') \<and>
   is_heading (analyzeParagraphForSection [] ''plain words.'') = label_like ''plain words.''"
proof -
  have h1: "is_heading (analyzeParagraph ''# Intro'')" by code_simp
  have h2: "\<not> is_heading (analyzeParagraph ''plain words.'')" by code_simp
  from h1 h2 classifiers_agree_on_graph_headings [of "''# Intro''"]
    classifiers_agree_on_graph_headings [of "''plain words.''"]
  show ?thesis by blast
qed

text \<open>
  The claim as stated fails: the paragraph \<open>Notes:\<close> is a heading for TreeGenerator (a
  label that ends with a colon) and body text for GraphIndexer.
\<close>

theorem classifiers_disagree_counterexample:
  "\<not> (is_heading (analyzeParagraph ''Notes:'') =
       is_heading (analyzeParagraphForSection [] ''Notes:''))"
  by code_simp

section \<open>Index ranges of the generated tree\<close>

lemma ranges_overlap_iff:
  "ranges_overlap a b \<longleftrightarrow>
     {tn_startIndex a .. tn_endIndex a} \<inter> {tn_startIndex b .. tn_endIndex b} \<noteq> {}"
  unfolding ranges_overlap_def by auto

lemma close_section_sorted:
  "sections_inv st \<Longrightarrow> sorted_wrt dn_before (close_section st)"
  by (auto simp: sections_inv_def close_section_def sorted_wrt_append dn_before_def
           split: option.splits)

lemma close_section_bound:
  "sections_inv st \<Longrightarrow> s \<in> set (close_section st) \<Longrightarrow> dn_endIndex s < ss_currentIndex st"
  by (auto simp: sections_inv_def close_section_def split: option.splits)

lemma identifySections_step_inv:
  assumes "sections_inv st"
  shows "sections_inv (identifySections_step cfg gen p st)"
proof (cases "is_heading (analyzeParagraphForSection (headingPatterns cfg) p)")
  case True
  then show ?thesis
    using close_section_sorted [OF assms] close_section_bound [OF assms]
    by (simp add: identifySections_step_def sections_inv_def Let_def)
next
  case False
  then show ?thesis
    using assms
    by (cases "ss_currentSection st")
       (auto simp: identifySections_step_def sections_inv_def sorted_wrt_append dn_before_def Let_def)
qed

lemma identifySections_loop_inv:
  "sections_inv st \<Longrightarrow> sections_inv (identifySections_loop cfg gen ps st)"
  by (induction ps arbitrary: st) (simp_all add: identifySections_step_inv)

lemma identifySections_sorted:
  "sorted_wrt dn_before (close_section (identifySections_state cfg gen ps))"
  unfolding identifySections_state_def
  by (rule close_section_sorted, rule identifySections_loop_inv) (simp add: sections_inv_def)

lemma sorted_wrt_takeWhile_dropWhile:
  "sorted_wrt P xs \<Longrightarrow> sorted_wrt P (takeWhile Q xs) \<and> sorted_wrt P (dropWhile Q xs)"
  by (induction xs) (auto dest: set_takeWhileD set_dropWhileD)

lemma tn_before_no_overlap: "sorted_wrt tn_before ns \<Longrightarrow> no_overlap_list ns"
  by (induction ns) (auto simp: tn_before_def ranges_overlap_def)

lemma buildHierarchy_apart:
  "sorted_wrt dn_before secs \<Longrightarrow>
     (\<forall>n \<in> set (buildHierarchy secs m).
        \<exists>s \<in> set secs. tn_startIndex n = dn_startIndex s \<and> tn_endIndex n = dn_endIndex s) \<and>
     sorted_wrt tn_before (buildHierarchy secs m) \<and>
     (\<forall>n \<in> set (buildHierarchy secs m). siblings_apart n)"
proof (induction secs m rule: buildHierarchy.induct)
  case (1 minLevel)
  then show ?case by simp
next
  case (2 cur rest minLevel)
  define lv where "lv = (if dn_level cur = 0 then minLevel else dn_level cur)"
  define kids where "kids = takeWhile (\<lambda>s. dn_level s > lv) rest"
  define others where "others = dropWhile (\<lambda>s. dn_level s > lv) rest"
  from "2.prems" have rest: "sorted_wrt dn_before rest" and
    first: "\<forall>s \<in> set rest. dn_before cur s" by auto
  from rest have sk: "sorted_wrt dn_before kids" and so: "sorted_wrt dn_before others"
    unfolding kids_def others_def using sorted_wrt_takeWhile_dropWhile by blast+
  note ihk = "2.IH"(1) [OF lv_def kids_def sk]
  note iho = "2.IH"(2) [OF lv_def kids_def so [unfolded others_def]]
  have sub: "set others \<subseteq> set rest" unfolding others_def by (auto dest: set_dropWhileD)
  have eq: "buildHierarchy (cur # rest) minLevel =
      TreeNode (dn_title cur) (dn_nodeId cur) (dn_startIndex cur) (dn_endIndex cur) (dn_summary cur)
        (Some (if dn_text cur = [] then js_join [CHR 0x0A, CHR 0x0A] (dn_content cur) else dn_text cur))
        (buildHierarchy kids (minLevel + 1)) # buildHierarchy others minLevel"
    by (simp add: Let_def lv_def kids_def others_def)
  have a: "\<forall>n \<in> set (buildHierarchy others minLevel). dn_endIndex cur < tn_startIndex n"
    using iho first sub unfolding others_def dn_before_def by fastforce
  let ?node = "TreeNode (dn_title cur) (dn_nodeId cur) (dn_startIndex cur) (dn_endIndex cur)
        (dn_summary cur)
        (Some (if dn_text cur = [] then js_join [CHR 0x0A, CHR 0x0A] (dn_content cur) else dn_text cur))
        (buildHierarchy kids (minLevel + 1))"
  have c1: "\<forall>n \<in> set (?node # buildHierarchy others minLevel).
      \<exists>s \<in> set (cur # rest). tn_startIndex n = dn_startIndex s \<and> tn_endIndex n = dn_endIndex s"
  proof
    fix n assume "n \<in> set (?node # buildHierarchy others minLevel)"
    then consider "n = ?node" | "n \<in> set (buildHierarchy others minLevel)" by auto
    then show "\<exists>s \<in> set (cur # rest). tn_startIndex n = dn_startIndex s \<and> tn_endIndex n = dn_endIndex s"
    proof cases
      case 1
      then show ?thesis by simp
    next
      case 2
      with iho obtain s where "s \<in> set others" "tn_startIndex n = dn_startIndex s"
        "tn_endIndex n = dn_endIndex s" unfolding others_def by blast
      with sub show ?thesis by auto
    qed
  qed
  have "\<forall>n \<in> set (buildHierarchy others minLevel). tn_before ?node n"
    using a by (simp add: tn_before_def)
  moreover have "sorted_wrt tn_before (buildHierarchy others minLevel)"
    using iho unfolding others_def by blast
  ultimately have c2: "sorted_wrt tn_before (?node # buildHierarchy others minLevel)"
    by simp
  have "no_overlap_list (buildHierarchy kids (minLevel + 1))"
    using ihk by (intro tn_before_no_overlap) blast
  moreover have "\<forall>c \<in> set (buildHierarchy kids (minLevel + 1)). siblings_apart c"
    using ihk by blast
  ultimately have "siblings_apart ?node" by simp
  moreover have "\<forall>n \<in> set (buildHierarchy others minLevel). siblings_apart n"
    using iho unfolding others_def by blast
  ultimately have c3: "\<forall>n \<in> set (?node # buildHierarchy others minLevel). siblings_apart n"
    by simp
  show ?case unfolding eq using c1 c2 c3 by (intro conjI)
qed

text \<open>
  Claim C4, as amended. In the tree that \<^verbatim>\<open>generateTree\<close> returns, the ranges of any two
  sibling nodes do not overlap, at every level of the tree. Containment of the children's
  ranges in the parent's range is not part of the amended claim: \<^verbatim>\<open>buildHierarchy\<close> copies
  the range of each section and never widens the range of a parent over its children.
\<close>

theorem generateTree_siblings_apart:
  "tree_siblings_apart (ti_nodes (generateTree cfg gen text ttl description))"
proof -
  let ?secs = "close_section (identifySections_state cfg gen (splitIntoParagraphs text))"
  have "sorted_wrt dn_before ?secs" by (rule identifySections_sorted)
  from buildHierarchy_apart [OF this, of 0]
  have "no_overlap_list (buildHierarchy ?secs 0)" and
    "\<forall>n \<in> set (buildHierarchy ?secs 0). siblings_apart n"
    using tn_before_no_overlap by blast+
  then show ?thesis
    by (simp add: generateTree_def buildNodes_def tree_siblings_apart_def Let_def)
qed

theorem generateTree_siblings_witness:
  "length (tn_children (hd (ti_nodes (generateTree tree_DEFAULT_CONFIG show_nat doc_flat ''T'' None)))) = 2 \<and>
   \<not> ranges_overlap
      (tn_children (hd (ti_nodes (generateTree tree_DEFAULT_CONFIG show_nat doc_flat ''T'' None))) ! 0)
      (tn_children (hd (ti_nodes (generateTree tree_DEFAULT_CONFIG show_nat doc_flat ''T'' None))) ! 1)"
proof -
  let ?t = "ti_nodes (generateTree tree_DEFAULT_CONFIG show_nat doc_flat ''T'' None)"
  have len: "length ?t = 1 \<and> length (tn_children (hd ?t)) = 2" by code_simp
  then obtain r where r: "?t = [r]" by (cases ?t) auto
  from len r obtain a b where ch: "tn_children r = [a, b]"
    by (cases "tn_children r"; cases "tl (tn_children r)") auto
  have "tree_siblings_apart ?t" by (rule generateTree_siblings_apart)
  then have "siblings_apart r" unfolding r by (simp add: tree_siblings_apart_def)
  then have "\<not> ranges_overlap a b" using ch by (cases r) simp
  then show ?thesis using len r ch by simp
qed

text \<open>
  The claim as stated fails. In \<open>doc_nested\<close> the heading \<open>A\<close> has no body paragraph of its
  own and gets the range \<open>[0, -1]\<close>; its child \<open>B\<close>, with two body paragraphs, gets \<open>[0, 1]\<close>,
  which is not within the range of \<open>A\<close>, strictly or not.
\<close>

theorem children_within_counterexample:
  "\<not> (\<forall>n \<in> set (ti_nodes (generateTree tree_DEFAULT_CONFIG show_nat doc_nested ''T'' None)).
        children_within n)"
  by code_simp

section \<open>Empty input\<close>

lemma after_last_nl_subset: "set (after_last_nl w) \<subseteq> set w"
  unfolding after_last_nl_def using set_takeWhileD [of _ "\<lambda>c. c \<noteq> CHR 0x0A" "rev w"] by auto

lemma split_blank_aux_chars:
  "p \<in> set (split_blank_aux cur s) \<Longrightarrow> set p \<subseteq> set cur \<union> set s"
proof (induction cur s arbitrary: p rule: split_blank_aux.induct)
  case (1 cur)
  then show ?case by auto
next
  case (2 cur c cs)
  show ?case
  proof (cases "c = CHR 0x0A \<and> CHR 0x0A \<in> set (takeWhile is_space cs)")
    case True
    with "2.prems" consider "p = rev cur"
      | "p \<in> set (split_blank_aux [] (after_last_nl (takeWhile is_space cs) @ dropWhile is_space cs))"
      by auto
    then show ?thesis
    proof cases
      case 1
      then show ?thesis by auto
    next
      case 2
      from "2.IH"(1) [OF True 2]
      have "set p \<subseteq> set (after_last_nl (takeWhile is_space cs)) \<union> set (dropWhile is_space cs)"
        by simp
      moreover have "set (takeWhile is_space cs) \<subseteq> set cs" by (auto dest: set_takeWhileD)
      moreover have "set (dropWhile is_space cs) \<subseteq> set cs" by (auto dest: set_dropWhileD)
      ultimately show ?thesis using after_last_nl_subset [of "takeWhile is_space cs"] by auto
    qed
  next
    case False
    with "2.prems" have "p \<in> set (split_blank_aux (c # cur) cs)" by auto
    from "2.IH"(2) [OF False this] show ?thesis by auto
  qed
qed

lemma trim_spaces:
  assumes "\<forall>c \<in> set p. is_space c"
  shows "trim p = []"
  using assms by (auto simp: trim_def dest: set_dropWhileD)

lemma whitespace_no_paragraphs:
  assumes "\<forall>c \<in> set doc. is_space c"
  shows "splitIntoParagraphs doc = []"
proof -
  have "\<forall>p \<in> set (split_blank doc). trim p = []"
  proof
    fix p assume "p \<in> set (split_blank doc)"
    then have "set p \<subseteq> set doc" unfolding split_blank_def using split_blank_aux_chars by fastforce
    with assms show "trim p = []" by (intro trim_spaces) auto
  qed
  then show ?thesis by (auto simp: splitIntoParagraphs_def filter_empty_conv)
qed

lemma generateTree_no_paragraphs:
  "splitIntoParagraphs doc = [] \<Longrightarrow> ti_nodes (generateTree cfg gen doc ttl d) = []"
  by (simp add: generateTree_def identifySections_state_def close_section_def buildNodes_def)

lemma index_no_paragraphs:
  assumes "splitIntoParagraphs doc = []"
  shows "length (nodes (index cfg gen doc ttl d)) = 1 \<and>
         ntype (hd (nodes (index cfg gen doc ttl d))) = Document \<and>
         edges (index cfg gen doc ttl d) = []"
  using assms
  by (simp add: index_def createGraphNodes_def identifyRelationships_def
        precomputeNodeRelationships_def Let_def)

text \<open>
  Claim C5, as amended. For an empty or white-space-only text neither index construction
  fails: \<^verbatim>\<open>generateTree\<close> returns no node, and \<^verbatim>\<open>GraphIndexer.index\<close> returns exactly one
  node, the document root, and no edge.
\<close>

theorem empty_text_indexes:
  assumes "\<forall>c \<in> set doc. is_space c"
  shows "ti_nodes (generateTree tcfg gen doc ttl d) = [] \<and>
         length (nodes (index gcfg gen' doc ttl d)) = 1 \<and>
         ntype (hd (nodes (index gcfg gen' doc ttl d))) = Document \<and>
         edges (index gcfg gen' doc ttl d) = []"
  using whitespace_no_paragraphs [OF assms] generateTree_no_paragraphs index_no_paragraphs
  by blast

theorem empty_text_witness:
  "ti_nodes (generateTree tree_DEFAULT_CONFIG show_nat ('' '' @ [CHR 0x0A, CHR 0x09]) ''T'' None) = [] \<and>
   length (nodes (index graph_DEFAULT_CONFIG show_nat ('' '' @ [CHR 0x0A, CHR 0x09]) ''T'' None)) = 1"
proof -
  have "\<forall>c \<in> set ('' '' @ [CHR 0x0A, CHR 0x09]). is_space c" by (simp add: is_space_def)
  from empty_text_indexes [OF this] show ?thesis by blast
qed

text \<open>
  The claim as stated fails for the graph index: on the empty text its node list has
  length 1, not 0.
\<close>

theorem empty_text_counterexample:
  "\<not> (length (ti_nodes (generateTree tree_DEFAULT_CONFIG show_nat [] ''T'' None)) = 0 \<and>
       length (nodes (index graph_DEFAULT_CONFIG show_nat [] ''T'' None)) = 0)"
  by code_simp

section \<open>Parent-child edges\<close>

lemma section_nodes_type: "n \<in> set (section_nodes gen k i ps) \<Longrightarrow> ntype n = Section"
  by (induction ps arbitrary: k i) (auto simp: Let_def split: if_splits)

lemma parent_child_edges_sections:
  "\<forall>n \<in> set secs. ntype n = Section \<Longrightarrow>
   parent_child_edges parent secs =
     map (\<lambda>c. \<lparr>e_from = nodeId parent, e_to = nodeId c, weight = 0.8, etype = ParentChild\<rparr>) secs"
  by (induction secs) auto

lemma semantic_edges_from_type: "e \<in> set (semantic_edges_from w ni ns) \<Longrightarrow> etype e = Semantic"
  by (induction ns) (auto split: if_splits)

lemma semantic_edges_type: "e \<in> set (semantic_edges w ns) \<Longrightarrow> etype e = Semantic"
  by (induction ns) (auto dest: semantic_edges_from_type)

lemma filter_semantic_none:
  "filter (\<lambda>e. etype e = ParentChild \<and> P e) (semantic_edges w ns) = []"
  by (auto simp: filter_empty_conv dest: semantic_edges_type)

lemma filter_unique_key:
  "distinct (map f xs) \<Longrightarrow> x \<in> set xs \<Longrightarrow> filter (\<lambda>y. f y = f x) xs = [x]"
proof (induction xs)
  case Nil
  then show ?case by simp
next
  case (Cons a xs)
  show ?case
  proof (cases "a = x")
    case True
    with Cons.prems have "f x \<notin> f ` set xs" by simp
    then have "\<forall>y \<in> set xs. f y \<noteq> f x" by (metis imageI)
    then have "filter (\<lambda>y. f y = f x) xs = []" by (simp add: filter_empty_conv)
    with True show ?thesis by simp
  next
    case False
    with Cons.prems have "x \<in> set xs" "f a \<noteq> f x" "distinct (map f xs)" by auto
    with Cons.IH show ?thesis by simp
  qed
qed

lemma precompute_nodeId: "map nodeId (precomputeNodeRelationships ns es) = map nodeId ns"
  by (simp add: precomputeNodeRelationships_def)

lemma precompute_ntype: "map ntype (precomputeNodeRelationships ns es) = map ntype ns"
  by (simp add: precomputeNodeRelationships_def)

lemma index_nodeIds:
  "map nodeId (nodes (index cfg gen doc ttl d)) =
     map nodeId (createGraphNodes gen (splitIntoParagraphs doc) ttl)"
  by (simp add: index_def Let_def precompute_nodeId)

lemma index_ntypes:
  "map ntype (nodes (index cfg gen doc ttl d)) =
     map ntype (createGraphNodes gen (splitIntoParagraphs doc) ttl)"
  by (simp add: index_def Let_def precompute_ntype)

lemma index_edges:
  "edges (index cfg gen doc ttl d) =
     identifyRelationships cfg (createGraphNodes gen (splitIntoParagraphs doc) ttl)"
  by (simp add: index_def Let_def)

text \<open>
  Claim C3, as amended. With \<^verbatim>\<open>enableCrossReferences\<close> on and the node identifiers of the
  graph distinct, the first node is the document root and every other node is a section
  with exactly one incoming parent-child edge, which comes from the root. With
  \<^verbatim>\<open>enableCrossReferences\<close> off the graph has no edge at all: the flag gates the
  parent-child edges as well as the semantic ones.
\<close>

theorem index_parent_child_edges:
  "(enableCrossReferences cfg \<longrightarrow> distinct (map nodeId (nodes (index cfg gen doc ttl d))) \<longrightarrow>
      ntype (hd (nodes (index cfg gen doc ttl d))) = Document \<and>
      (\<forall>n \<in> set (tl (nodes (index cfg gen doc ttl d))).
         ntype n = Section \<and>
         incoming_parent_child (index cfg gen doc ttl d) n =
           [\<lparr>e_from = nodeId (hd (nodes (index cfg gen doc ttl d))), e_to = nodeId n,
             weight = 0.8, etype = ParentChild\<rparr>])) \<and>
   (\<not> enableCrossReferences cfg \<longrightarrow> edges (index cfg gen doc ttl d) = [])"
proof (intro conjI impI)
  let ?G = "index cfg gen doc ttl d"
  let ?ps = "splitIntoParagraphs doc"
  let ?secs = "section_nodes gen 1 0 ?ps"
  obtain root where cg: "createGraphNodes gen ?ps ttl = root # ?secs" and rt: "ntype root = Document"
    by (simp add: createGraphNodes_def)
  from index_nodeIds [of cfg gen doc ttl d] cg
  have ids: "map nodeId (nodes ?G) = nodeId root # map nodeId ?secs" by simp
  from index_ntypes [of cfg gen doc ttl d] cg
  have tys: "map ntype (nodes ?G) = ntype root # map ntype ?secs" by simp
  from ids obtain r rest where nG: "nodes ?G = r # rest" and r: "nodeId r = nodeId root"
    and rest: "map nodeId rest = map nodeId ?secs"
    by (cases "nodes ?G") auto
  from tys nG have tr: "ntype r = Document" and trest: "map ntype rest = map ntype ?secs"
    using rt by auto
  show "ntype (hd (nodes ?G)) = Document" using nG tr by simp
  assume en: "enableCrossReferences cfg" and dist: "distinct (map nodeId (nodes ?G))"
  have allsec: "\<forall>n \<in> set ?secs. ntype n = Section" by (simp add: section_nodes_type)
  have es: "edges ?G =
      map (\<lambda>c. \<lparr>e_from = nodeId root, e_to = nodeId c, weight = 0.8, etype = ParentChild\<rparr>) ?secs
      @ semantic_edges (minEdgeWeight cfg) ?secs"
    using en cg parent_child_edges_sections [OF allsec, of root]
    by (simp add: index_edges identifyRelationships_def)
  show "\<forall>n \<in> set (tl (nodes ?G)). ntype n = Section \<and>
      incoming_parent_child ?G n =
        [\<lparr>e_from = nodeId (hd (nodes ?G)), e_to = nodeId n, weight = 0.8, etype = ParentChild\<rparr>]"
  proof
    fix n assume "n \<in> set (tl (nodes ?G))"
    then have nr: "n \<in> set rest" using nG by simp
    then obtain i where i: "i < length rest" "rest ! i = n" by (auto simp: in_set_conv_nth)
    have len: "length rest = length ?secs" using rest by (metis length_map)
    let ?c = "?secs ! i"
    have c: "?c \<in> set ?secs" using i len by simp
    have idc: "nodeId ?c = nodeId n" using rest i len by (metis nth_map)
    have "ntype n = ntype ?c" using trest i len by (metis nth_map)
    then have tn: "ntype n = Section" using allsec c by simp
    have dsec: "distinct (map nodeId ?secs)" using dist ids by simp
    have "filter (\<lambda>y. nodeId y = nodeId ?c) ?secs = [?c]"
      using filter_unique_key [OF dsec c] .
    then have "incoming_parent_child ?G n =
        [\<lparr>e_from = nodeId root, e_to = nodeId ?c, weight = 0.8, etype = ParentChild\<rparr>]"
      unfolding incoming_parent_child_def es
      by (simp add: filter_semantic_none filter_map o_def idc [symmetric])
    then show "ntype n = Section \<and> incoming_parent_child ?G n =
        [\<lparr>e_from = nodeId (hd (nodes ?G)), e_to = nodeId n, weight = 0.8, etype = ParentChild\<rparr>]"
      using tn nG r idc by simp
  qed
next
  assume "\<not> enableCrossReferences cfg"
  then show "edges (index cfg gen doc ttl d) = []"
    by (simp add: index_edges identifyRelationships_def)
qed

theorem index_parent_child_witness:
  "enableCrossReferences graph_DEFAULT_CONFIG \<and>
   distinct (map nodeId (nodes graph_flat)) \<and>
   length (nodes graph_flat) = 3 \<and>
   incoming_parent_child graph_flat (nodes graph_flat ! 1) =
     [\<lparr>e_from = nodeId (hd (nodes graph_flat)), e_to = nodeId (nodes graph_flat ! 1),
       weight = 0.8, etype = ParentChild\<rparr>] \<and>
   \<not> enableCrossReferences (graph_DEFAULT_CONFIG\<lparr>enableCrossReferences := False\<rparr>) \<and>
   edges graph_flat_no_xref = []"
proof -
  have h1: "enableCrossReferences graph_DEFAULT_CONFIG" by (simp add: graph_DEFAULT_CONFIG_def)
  have h2: "distinct (map nodeId (nodes graph_flat))" by code_simp
  have h3: "length (nodes graph_flat) = 3" by code_simp
  then have h4: "nodes graph_flat ! 1 \<in> set (tl (nodes graph_flat))"
    by (cases "nodes graph_flat") auto
  have h5: "\<not> enableCrossReferences (graph_DEFAULT_CONFIG\<lparr>enableCrossReferences := False\<rparr>)"
    by simp
  from h1 h2 h4 index_parent_child_edges [of graph_DEFAULT_CONFIG show_nat doc_flat "''T''" None]
  have "incoming_parent_child graph_flat (nodes graph_flat ! 1) =
     [\<lparr>e_from = nodeId (hd (nodes graph_flat)), e_to = nodeId (nodes graph_flat ! 1),
       weight = 0.8, etype = ParentChild\<rparr>]"
    unfolding graph_flat_def by blast
  moreover from h5
    index_parent_child_edges [of "graph_DEFAULT_CONFIG\<lparr>enableCrossReferences := False\<rparr>"
      show_nat doc_flat "''T''" None]
  have "edges graph_flat_no_xref = []" unfolding graph_flat_no_xref_def by blast
  ultimately show ?thesis using h1 h2 h3 h5 by blast
qed

text \<open>
  The claim as stated fails with \<^verbatim>\<open>enableCrossReferences\<close> off: the two section nodes of
  \<open>doc_flat\<close> have no incoming parent-child edge.
\<close>

theorem index_parent_child_counterexample:
  "\<not> (\<forall>n \<in> set (tl (nodes graph_flat_no_xref)). length (incoming_parent_child graph_flat_no_xref n) = 1)"
  by code_simp

section \<open>Identifiers that name no node\<close>

lemma retrieveContent_skips:
  "retrieveContent graph ids = Inr (present_records graph ids)"
  unfolding retrieveContent_def present_records_def
  by (induction ids)
     (auto simp: content_record_def read_property_def split: option.splits sum.splits)

lemma edgeWeightSum_throwing_value:
  "edgeWeightSum_throwing graph p acc = Inr (acc + edgeWeightSum graph p)"
  by (induction graph p acc rule: edgeWeightSum_throwing.induct)
     (auto simp: read_property_def Let_def split: option.splits)

lemma nodeScores_throwing_value:
  "map_throwing (nodeScore_throwing graph) p = Inr (nodeScores graph p)"
  by (induction p)
     (auto simp: nodeScore_throwing_def nodeScores_def read_property_def Let_def split: option.splits)

lemma foldl_plus: "foldl (+) (a::real) xs = a + sum_list xs"
  by (induction xs arbitrary: a) auto

lemma calculatePathScore_throwing_value:
  "calculatePathScore_throwing p graph = Inr (optimized_calculatePathScore p graph)"
  by (simp add: calculatePathScore_throwing_def optimized_calculatePathScore_def
      edgeWeightSum_throwing_value nodeScores_throwing_value foldl_plus Let_def)

text \<open>
  Claim C8, as amended. For every graph and every identifier list, retrieval and path
  scoring return and do not throw: the guards of the source keep every property read away
  from \<^verbatim>\<open>undefined\<close>. \<^verbatim>\<open>retrieveContent\<close> returns, in order, the full records of the
  identifiers that name a node of the graph and skips the others; \<^verbatim>\<open>calculatePathScore\<close>
  returns the path score in which an identifier that names no node counts 0.
\<close>

theorem missing_ids_are_skipped:
  "retrieveContent graph ids = Inr (present_records graph ids) \<and>
   calculatePathScore_throwing p graph = Inr (optimized_calculatePathScore p graph) \<and>
   (\<forall>i < length p. find_node graph (p ! i) = None \<longrightarrow> nodeScores graph p ! i = 0)"
  by (simp add: retrieveContent_skips calculatePathScore_throwing_value nodeScores_def)

theorem missing_ids_witness:
  "find_node graph_flat ''ghost'' = None \<and>
   retrieveContent graph_flat [''node_1'', ''ghost''] =
     Inr [\<lparr>r_nodeId = ''node_1'', r_title = ''Intro'', r_content = ''# Intro'',
           r_summary = ''# Intro''\<rparr>] \<and>
   calculatePathScore_throwing [''node_0'', ''ghost''] graph_flat =
     Inr (optimized_calculatePathScore [''node_0'', ''ghost''] graph_flat) \<and>
   nodeScores graph_flat [''node_0'', ''ghost''] ! 1 = 0"
proof -
  have h: "find_node graph_flat ''ghost'' = None" by code_simp
  have r: "present_records graph_flat [''node_1'', ''ghost''] =
     [\<lparr>r_nodeId = ''node_1'', r_title = ''Intro'', r_content = ''# Intro'',
       r_summary = ''# Intro''\<rparr>]"
    by code_simp
  from h r missing_ids_are_skipped [of graph_flat "[''node_1'', ''ghost'']" "[''node_0'', ''ghost'']"]
  show ?thesis by simp
qed

text \<open>
  The claim as stated fails: with the identifier \<open>ghost\<close>, which names no node of
  \<open>graph_flat\<close>, neither operation throws; the first returns the record of the other
  identifier only and the second returns a score.
\<close>

theorem missing_ids_counterexample:
  "find_node graph_flat ''ghost'' = None \<and>
   retrieveContent graph_flat [''node_1'', ''ghost''] =
     Inr [\<lparr>r_nodeId = ''node_1'', r_title = ''Intro'', r_content = ''# Intro'',
           r_summary = ''# Intro''\<rparr>] \<and>
   calculatePathScore_throwing [''node_0'', ''ghost''] graph_flat = Inr 0.03"
  by code_simp

section \<open>The keyword scorer\<close>

lemma tokenize_empty: "tokenize [] = []"
  by (simp add: tokenize_def strip_punctuation_def toLowerCase_def split_ws.simps)

lemma count_filter: "length (filter (\<lambda>t. t = q) xs) = count_list xs q"
  by (induction xs) auto

lemma foldl_score_term:
  "foldl (score_term node tt st xt) acc qs =
     acc + 10 * real (length (filter (\<lambda>q. q \<in> set tt) qs))
     + 5 * real (length (filter (\<lambda>q. js_includes (toLowerCase (tn_title node)) q) qs))
     + 2 * real (sum_list (map (\<lambda>q. count_list st q) qs))
     + sum_list (map (\<lambda>q. min (0.5 * real (count_list xt q)) 5) qs)"
proof (induction qs arbitrary: acc)
  case Nil
  then show ?case by simp
next
  case (Cons q qs)
  show ?case
    unfolding foldl.simps Cons.IH
    by (simp add: score_term_def Let_def count_filter algebra_simps)
qed

lemma scoreNode_spec: "scoreNode node queryTerms = spec_score node queryTerms"
proof -
  have "(case tn_text node of None \<Rightarrow> [] | Some t \<Rightarrow> if t = [] then [] else tokenize t)
      = text_terms node"
    by (simp add: text_terms_def tokenize_empty split: option.splits)
  then show ?thesis
    by (simp add: scoreNode_def spec_score_def Let_def foldl_score_term)
qed

lemma js_insert_set: "set (js_insert cmp x ys) = insert x (set ys)"
  by (induction ys) auto

lemma js_insert_sorted_desc:
  "sorted_wrt (\<lambda>a b. key a \<ge> key b) ys \<Longrightarrow>
   sorted_wrt (\<lambda>a b. key a \<ge> key b) (js_insert (\<lambda>a b. key b - key a) x ys)"
  for key :: "'a \<Rightarrow> real"
  by (induction ys) (auto simp: js_insert_set)

lemma js_sort_sorted_desc:
  "sorted_wrt (\<lambda>a b. key a \<ge> key b) (js_sort (\<lambda>a b. key b - key a) xs)"
  for key :: "'a \<Rightarrow> real"
  unfolding js_sort_def by (induction xs) (auto simp: js_insert_sorted_desc)

lemma mset_concat_map: "mset (concat (map f xs)) = sum_list (map (\<lambda>x. mset (f x)) xs)"
  by (induction xs) auto

lemma mset_flatten_node: "mset (flatten_node n) = occurrences n"
proof (induction n)
  case (TreeNode t i s e sm tx ch)
  have eq: "map (\<lambda>x. mset (flatten_node x)) ch = map occurrences ch"
    by (rule map_cong [OF refl]) (rule TreeNode.IH)
  have "mset (flatten_node (TreeNode t i s e sm tx ch)) =
      add_mset (TreeNode t i s e sm tx ch) (sum_list (map (\<lambda>x. mset (flatten_node x)) ch))"
    by (simp add: mset_concat_map)
  also have "\<dots> = occurrences (TreeNode t i s e sm tx ch)"
    unfolding eq by simp
  finally show ?case .
qed

lemma mset_flattenTree: "mset (flattenTree roots) = tree_occurrences roots"
  by (simp add: flattenTree_def tree_occurrences_def mset_concat_map mset_flatten_node)

lemma flatten_node_self: "n \<in> set (flatten_node n)"
  by (cases n) simp

lemma flatten_node_child:
  "n \<in> set (flatten_node r) \<Longrightarrow> c \<in> set (tn_children n) \<Longrightarrow> c \<in> set (flatten_node r)"
proof (induction r)
  case (TreeNode t i s e sm tx ch)
  from TreeNode.prems(1) consider "n = TreeNode t i s e sm tx ch"
    | k where "k \<in> set ch" "n \<in> set (flatten_node k)" by auto
  then show ?case
  proof cases
    case 1
    with TreeNode.prems(2) have "c \<in> set ch" by simp
    then show ?thesis using flatten_node_self [of c] by auto
  next
    case 2
    with TreeNode.IH [OF 2(1) 2(2) TreeNode.prems(2)] show ?thesis by auto
  qed
qed

lemma flatten_node_sub:
  "r \<in> tree_nodes roots \<Longrightarrow> set (flatten_node r) \<subseteq> tree_nodes roots"
proof (induction r)
  case (TreeNode t i s e sm tx ch)
  have "set (flatten_node k) \<subseteq> tree_nodes roots" if "k \<in> set ch" for k
  proof -
    have "k \<in> tree_nodes roots" using tree_nodes.child [OF TreeNode.prems] that by simp
    with TreeNode.IH [OF that] show ?thesis .
  qed
  with TreeNode.prems show ?case by auto
qed

lemma set_flattenTree: "set (flattenTree roots) = tree_nodes roots"
proof
  show "set (flattenTree roots) \<subseteq> tree_nodes roots"
    using flatten_node_sub [OF tree_nodes.root] by (auto simp: flattenTree_def)
  show "tree_nodes roots \<subseteq> set (flattenTree roots)"
  proof
    fix m assume "m \<in> tree_nodes roots"
    then show "m \<in> set (flattenTree roots)"
    proof induction
      case (root n)
      then show ?case using flatten_node_self [of n] by (auto simp: flattenTree_def)
    next
      case (child n c)
      then show ?case using flatten_node_child by (fastforce simp: flattenTree_def)
    qed
  qed
qed

text \<open>
  Claim C7. \<^verbatim>\<open>scoreNode\<close> computes the score as the specification words it. The nodes
  ranked by \<^verbatim>\<open>search\<close> are exactly the nodes of the tree, at any depth, with a strictly
  positive score, each as often as it occurs in the tree; they are in the order of
  non-increasing score, and the node list is the identifiers of the first \<open>maxResults\<close> of
  them.
\<close>

theorem keyword_scorer:
  "scoreNode node queryTerms = spec_score node queryTerms \<and>
   mset (scored_nodes tree query) =
     filter_mset (\<lambda>s. snd s > 0)
       (image_mset (\<lambda>n. (n, spec_score n (tokenize query))) (tree_occurrences (ti_nodes tree))) \<and>
   fst ` set (scored_nodes tree query) =
     {n \<in> tree_nodes (ti_nodes tree). spec_score n (tokenize query) > 0} \<and>
   sorted_wrt (\<lambda>a b. snd a \<ge> snd b) (scored_nodes tree query) \<and>
   search maxRes tree query = map (\<lambda>s. tn_nodeId (fst s)) (take maxRes (scored_nodes tree query))"
proof -
  have m: "mset (scored_nodes tree query) =
     filter_mset (\<lambda>s. snd s > 0)
       (image_mset (\<lambda>n. (n, spec_score n (tokenize query))) (tree_occurrences (ti_nodes tree)))"
    by (simp add: scored_nodes_def Let_def mset_js_sort scoreNode_spec mset_flattenTree [symmetric])
  have "set (scored_nodes tree query) =
      {s \<in> (\<lambda>n. (n, spec_score n (tokenize query))) ` tree_nodes (ti_nodes tree). snd s > 0}"
    by (simp add: scored_nodes_def Let_def set_js_sort scoreNode_spec set_flattenTree)
  then have s: "fst ` set (scored_nodes tree query) =
     {n \<in> tree_nodes (ti_nodes tree). spec_score n (tokenize query) > 0}"
    by force
  show ?thesis
    using m s
    by (simp add: scoreNode_spec scored_nodes_def search_def Let_def js_sort_sorted_desc
          del: mset_filter mset_map)
qed

theorem keyword_scorer_witness:
  "TreeNode ''Install steps'' ''i'' 1 1 ''Install steps'' (Some ''install it now'') []
     \<in> fst ` set (scored_nodes tree_deep ''install'') \<and>
   scoreNode (TreeNode ''Install steps'' ''i'' 1 1 ''Install steps'' (Some ''install it now'') [])
     (tokenize ''install'') = 32.5 \<and>
   scoreNode (TreeNode ''Other'' ''o'' 2 2 ''Other'' (Some ''unrelated words'') [])
     (tokenize ''install'') = 0 \<and>
   search 10 tree_deep ''install'' = [''i'', ''s'']"
proof -
  let ?i = "TreeNode ''Install steps'' ''i'' 1 1 ''Install steps'' (Some ''install it now'') []"
  let ?s = "TreeNode ''Setup'' ''s'' 0 0 ''Setup'' (Some ''Run install'') [?i]"
  let ?o = "TreeNode ''Other'' ''o'' 2 2 ''Other'' (Some ''unrelated words'') []"
  let ?r = "TreeNode ''Guide'' ''r'' 0 2 ''about nothing'' None [?s, ?o]"
  have "?r \<in> tree_nodes (ti_nodes tree_deep)"
    by (rule tree_nodes.root) (simp add: tree_deep_def)
  then have "?s \<in> tree_nodes (ti_nodes tree_deep)"
    by (rule tree_nodes.child) simp
  then have n: "?i \<in> tree_nodes (ti_nodes tree_deep)"
    by (rule tree_nodes.child) simp
  have a: "spec_score ?i (tokenize ''install'') = 32.5" by code_simp
  have b: "spec_score ?o (tokenize ''install'') = 0" by code_simp
  have c: "map (\<lambda>s. tn_nodeId (fst s)) (take 10 (scored_nodes tree_deep ''install'')) = [''i'', ''s'']"
    by code_simp
  from n a b c
    keyword_scorer [of ?i "tokenize ''install''" tree_deep "''install''" 10]
    keyword_scorer [of ?o "tokenize ''install''" tree_deep "''install''" 10]
  show ?thesis by simp
qed

section \<open>The activation score\<close>

lemma similarity_is_jaccard:
  assumes "distinct (keywords_of node1)"
  shows "optimized_calculateSemanticSimilarity node1 node2 =
         jaccard (keywords_of node1) (keywords_of node2)"
proof (cases "keywords_of node1 = [] \<or> keywords_of node2 = []")
  case True
  then show ?thesis
    by (auto simp: optimized_calculateSemanticSimilarity_def jaccard_def)
next
  case False
  let ?a = "keywords_of node1" and ?b = "keywords_of node2"
  have i: "length (filter (\<lambda>k. k \<in> set ?b) ?a) = card (set ?a \<inter> set ?b)"
    using distinct_length_filter [OF assms, of "\<lambda>k. k \<in> set ?b"] by (simp add: Int_commute Collect_mem_eq)
  have u: "length (remdups (?a @ ?b)) = card (set ?a \<union> set ?b)"
    by (simp add: length_remdups_card_conv)
  have "card (set ?a \<union> set ?b) \<ge> 1"
    using False by (simp add: Suc_leI card_gt_0_iff)
  then show ?thesis using False i u
    by (simp add: optimized_calculateSemanticSimilarity_def jaccard_def Let_def max_def)
qed

lemma jaccard_nonneg: "0 \<le> jaccard a b"
  by (simp add: jaccard_def)

lemma fold_max_nonneg:
  "\<forall>x \<in> set (y # ys). (0::real) \<le> x \<Longrightarrow> fold max ys y = fold max (y # ys) 0"
  by (simp add: max_absorb1)

lemma fold_max_ge: "(a::real) \<le> fold max xs a"
proof (induction xs arbitrary: a)
  case Nil
  then show ?case by simp
next
  case (Cons x xs)
  have "a \<le> max x a" by simp
  also have "max x a \<le> fold max xs (max x a)" by (rule Cons.IH)
  finally show ?case by simp
qed

text \<open>
  For a node that carries a centrality greater than 0 and a keyword list without
  repetitions, \<^verbatim>\<open>calculateNodeActivationScore\<close> is the score of the specification.
\<close>

lemma activation_score_formula:
  assumes c: "metadata node = Some m" "md_centrality m = Some c" "0 < c"
    and d: "distinct (keywords_of node)"
  shows "calculateNodeActivationScore node sourceNodeIds graph =
         claimed_activation_score node sourceNodeIds graph"
proof -
  let ?srcs = "filter (\<lambda>n. nodeId n \<in> set sourceNodeIds) (nodes graph)"
  let ?sims = "map (\<lambda>source. jaccard (keywords_of node) (keywords_of source)) ?srcs"
  have m: "map (\<lambda>source. optimized_calculateSemanticSimilarity node source) ?srcs = ?sims"
    using similarity_is_jaccard [OF d] by simp
  have s: "(case ?sims of [] \<Rightarrow> 0 | x # xs \<Rightarrow> fold max xs x) = fold max ?sims 0"
  proof (cases ?sims)
    case Nil
    then show ?thesis by simp
  next
    case (Cons x xs)
    have "\<forall>v \<in> set ?sims. 0 \<le> v" by (auto simp: jaccard_nonneg)
    then show ?thesis unfolding Cons using fold_max_nonneg [of x xs] by simp
  qed
  have f: "0 \<le> fold max ?sims 0" by (rule fold_max_ge)
  have cc: "centrality_or_half node = c" "carried_centrality node = c"
    using c by (simp_all add: centrality_or_half_def carried_centrality_def)
  have pos: "0 \<le> c * 0.25 + fold max ?sims 0 * 0.30
        + (if keywords_of node \<noteq> [] then 0.4 else 0) * 0.15
        + (if ntype node = Section then 0.8 else 0.3) * 0.15
        + max 0.7 (1 - pos_start (position node) * 0.1) * 0.15"
    using c(3) f by (auto simp: max_def intro!: add_nonneg_nonneg)
  show ?thesis
    unfolding calculateNodeActivationScore_def claimed_activation_score_def Let_def m s cc
    using pos by (simp add: max_def min_def)
qed

text \<open>
  Claim C6 at a node whose carried centrality is 0. \<^verbatim>\<open>node.metadata?.centrality || 0.5\<close>
  takes the 0 for a missing value, so the code scores the node 0.755 where the formula of
  the claim gives 0.63.
\<close>

theorem activation_score_zero_centrality:
  "carried_centrality node_isolated = 0 \<and>
   calculateNodeActivationScore node_isolated [''z''] graph_isolated = 0.755 \<and>
   claimed_activation_score node_isolated [''z''] graph_isolated = 0.63"
  by (simp add: carried_centrality_def calculateNodeActivationScore_def claimed_activation_score_def
      node_isolated_def graph_isolated_def centrality_or_half_def keywords_of_def
      optimized_calculateSemanticSimilarity_def jaccard_def Let_def)

section \<open>The returned paths\<close>

lemma results_inv_skip: "results_inv maxD seen rs \<Longrightarrow> results_inv maxD (insert sig seen) rs"
  by (auto simp: results_inv_def)

lemma results_inv_add:
  assumes "results_inv maxD seen rs" and "js_join ''->'' p \<notin> seen"
    and "2 \<le> length p" and "d \<le> maxD"
  shows "results_inv maxD (insert (js_join ''->'' p) seen)
           (rs @ [\<lparr>nodeIds = p, distance = d, pathScore = sc\<rparr>])"
proof -
  have "p \<notin> set (map nodeIds rs)"
  proof
    assume "p \<in> set (map nodeIds rs)"
    then obtain r where "r \<in> set rs" "nodeIds r = p" by auto
    with assms(1) have "js_join ''->'' p \<in> seen" by (auto simp: results_inv_def)
    with assms(2) show False by simp
  qed
  with assms show ?thesis by (auto simp: results_inv_def)
qed

lemma bmssp_step_inv:
  assumes "results_inv maxD (b_visitedPaths st) (b_results st)"
  shows "results_inv maxD (b_visitedPaths (bmssp_step graph maxD minW st))
           (b_results (bmssp_step graph maxD minW st))"
proof (cases "js_sort (\<lambda>a b. q_distance a - q_distance b) (b_queue st)")
  case Nil
  then show ?thesis using assms by (simp add: bmssp_step_def)
next
  case (Cons current rest)
  show ?thesis
  proof (cases "q_distance current > maxD \<or> js_join ''->'' (q_path current) \<in> b_visitedPaths st")
    case True
    then show ?thesis using assms Cons by (auto simp: bmssp_step_def Let_def)
  next
    case False
    show ?thesis
    proof (cases "length (q_path current) > 1")
      case True
      with False Cons results_inv_add [OF assms, of "q_path current" "q_distance current"]
      show ?thesis by (simp add: bmssp_step_def Let_def)
    next
      case short: False
      with False Cons results_inv_skip [OF assms]
      show ?thesis by (simp add: bmssp_step_def Let_def)
    qed
  qed
qed

lemma bmssp_loop_continue:
  "length (b_queue st) > 0 \<and> length (b_results st) < maxRes \<Longrightarrow>
   bmssp_loop graph maxD maxRes minW st =
     bmssp_loop graph maxD maxRes minW (bmssp_step graph maxD minW st)"
  by (subst bmssp_loop.simps) simp

lemma bmssp_loop_stop:
  "\<not> (length (b_queue st) > 0 \<and> length (b_results st) < maxRes) \<Longrightarrow>
   bmssp_loop graph maxD maxRes minW st = st"
  by (subst bmssp_loop.simps) auto

lemma bmssp_loop_inv:
  "results_inv maxD (b_visitedPaths st) (b_results st) \<Longrightarrow>
   results_inv maxD (b_visitedPaths (bmssp_loop graph maxD maxRes minW st))
     (b_results (bmssp_loop graph maxD maxRes minW st))"
proof (induction graph maxD maxRes minW st rule: bmssp_loop.induct)
  case (1 graph maxD maxRes minW st)
  show ?case
  proof (cases "length (b_queue st) > 0 \<and> length (b_results st) < maxRes")
    case True
    from "1.IH" [OF True bmssp_step_inv [OF "1.prems"]]
    show ?thesis unfolding bmssp_loop_continue [OF True] .
  next
    case False
    show ?thesis unfolding bmssp_loop_stop [OF False] by (rule "1.prems")
  qed
qed

lemma ranked_paths_ok:
  assumes "results_inv maxD seen rs"
  shows "paths_ok maxD maxRes (take maxRes (js_sort (\<lambda>a b. pathScore b - pathScore a) rs))"
proof -
  let ?s = "js_sort (\<lambda>a b. pathScore b - pathScore a) rs"
  have "mset (map nodeIds ?s) = mset (map nodeIds rs)" by (simp add: mset_js_sort)
  then have "distinct (map nodeIds ?s)"
    using assms mset_eq_imp_distinct_iff unfolding results_inv_def by blast
  then have d: "distinct (map nodeIds (take maxRes ?s))" by (simp add: take_map [symmetric])
  have "set (take maxRes ?s) \<subseteq> set rs" using set_take_subset [of maxRes ?s] by (simp add: set_js_sort)
  then have b: "\<forall>p \<in> set (take maxRes ?s). 2 \<le> length (nodeIds p) \<and> distance p \<le> maxD"
    using assms unfolding results_inv_def by blast
  have "sorted_wrt (\<lambda>a b. pathScore a \<ge> pathScore b) ?s" by (rule js_sort_sorted_desc)
  then have s: "sorted_wrt (\<lambda>a b. pathScore a \<ge> pathScore b) (take maxRes ?s)"
    by (rule sorted_wrt_take)
  show ?thesis unfolding paths_ok_def using d b s by simp
qed

lemma findBoundedPaths_ok:
  "paths_ok (option_maxDepth options) (option_maxResults options)
     (findBoundedPaths graph sourceNodeIds options)"
  unfolding findBoundedPaths_def Let_def
  by (rule ranked_paths_ok, rule bmssp_loop_inv) (simp add: results_inv_def)

lemma optimized_step_inv:
  assumes "results_inv maxD (o_visitedPaths st) (o_results st)"
  shows "results_inv maxD (o_visitedPaths (optimized_step graph srcs maxD minW st))
           (o_results (optimized_step graph srcs maxD minW st))"
proof (cases "js_sort queue_order (o_queue st)")
  case Nil
  then show ?thesis using assms by (simp add: optimized_step_def)
next
  case (Cons current rest)
  show ?thesis
  proof (cases "(oq_distance current > maxD \<or> activationScore current < 0.25) \<or>
      js_join ''->'' (oq_path current) \<in> o_visitedPaths st")
    case True
    then show ?thesis using assms Cons by (auto simp: optimized_step_def Let_def)
  next
    case False
    show ?thesis
    proof (cases "length (oq_path current) > 1")
      case True
      with False Cons results_inv_add [OF assms, of "oq_path current" "oq_distance current"]
      show ?thesis by (simp add: optimized_step_def Let_def)
    next
      case short: False
      with False Cons results_inv_skip [OF assms]
      show ?thesis by (simp add: optimized_step_def Let_def)
    qed
  qed
qed

lemma optimized_loop_continue:
  "length (o_queue st) > 0 \<and> length (o_results st) < maxRes \<Longrightarrow>
   optimized_loop graph srcs maxD maxRes minW st =
     optimized_loop graph srcs maxD maxRes minW (optimized_step graph srcs maxD minW st)"
  by (subst optimized_loop.simps) simp

lemma optimized_loop_stop:
  "\<not> (length (o_queue st) > 0 \<and> length (o_results st) < maxRes) \<Longrightarrow>
   optimized_loop graph srcs maxD maxRes minW st = st"
  by (subst optimized_loop.simps) auto

lemma optimized_loop_inv:
  "results_inv maxD (o_visitedPaths st) (o_results st) \<Longrightarrow>
   results_inv maxD (o_visitedPaths (optimized_loop graph srcs maxD maxRes minW st))
     (o_results (optimized_loop graph srcs maxD maxRes minW st))"
proof (induction graph srcs maxD maxRes minW st rule: optimized_loop.induct)
  case (1 graph srcs maxD maxRes minW st)
  show ?case
  proof (cases "length (o_queue st) > 0 \<and> length (o_results st) < maxRes")
    case True
    from "1.IH" [OF True optimized_step_inv [OF "1.prems"]]
    show ?thesis unfolding optimized_loop_continue [OF True] .
  next
    case False
    show ?thesis unfolding optimized_loop_stop [OF False] by (rule "1.prems")
  qed
qed

lemma optimized_findBoundedPaths_ok:
  "paths_ok (option_maxDepth options) (option_maxResults options)
     (fst (optimized_findBoundedPaths graph sourceNodeIds options))"
  unfolding optimized_findBoundedPaths_def Let_def fst_conv
  by (rule ranked_paths_ok, rule optimized_loop_inv) (simp add: results_inv_def optimized_init_def)

text \<open>
  Claim C1. For every graph, every list of source identifiers and every options record,
  the paths returned by \<^verbatim>\<open>findBoundedPaths\<close>, in the plain and in the selective variant,
  have pairwise different node sequences, at least two nodes each, a distance of at most
  \<open>maxDepth\<close>, non-increasing path scores, and are at most \<open>maxResults\<close> many. Both loops
  are total functions, so a path list is returned on every input.
\<close>

theorem bounded_paths_ok:
  "paths_ok (option_maxDepth options) (option_maxResults options)
     (findBoundedPaths graph sourceNodeIds options) \<and>
   paths_ok (option_maxDepth options) (option_maxResults options)
     (fst (optimized_findBoundedPaths graph sourceNodeIds options))"
  using findBoundedPaths_ok optimized_findBoundedPaths_ok by blast

theorem bounded_paths_witness:
  "length (findBoundedPaths graph_pair [''a'', ''b''] default_options) = 2 \<and>
   nodeIds (findBoundedPaths graph_pair [''a'', ''b''] default_options ! 0) \<noteq>
     nodeIds (findBoundedPaths graph_pair [''a'', ''b''] default_options ! 1) \<and>
   2 \<le> length (nodeIds (findBoundedPaths graph_pair [''a'', ''b''] default_options ! 0)) \<and>
   distance (findBoundedPaths graph_pair [''a'', ''b''] default_options ! 0) \<le> 3 \<and>
   pathScore (findBoundedPaths graph_pair [''a'', ''b''] default_options ! 0) \<ge>
     pathScore (findBoundedPaths graph_pair [''a'', ''b''] default_options ! 1) \<and>
   length (fst (optimized_findBoundedPaths graph_pair [''a'', ''b''] default_options)) = 2 \<and>
   distance (fst (optimized_findBoundedPaths graph_pair [''a'', ''b''] default_options) ! 1) \<le> 3"
proof -
  let ?ps = "findBoundedPaths graph_pair [''a'', ''b''] default_options"
  let ?qs = "fst (optimized_findBoundedPaths graph_pair [''a'', ''b''] default_options)"
  have l: "length ?ps = 2" by code_simp
  have m: "length ?qs = 2" by code_simp
  have d: "option_maxDepth default_options = 3"
    by (simp add: option_maxDepth_def default_options_def)
  from l obtain p0 p1 where ps: "?ps = [p0, p1]"
    by (cases ?ps; cases "tl ?ps") auto
  from m obtain q0 q1 where qs: "?qs = [q0, q1]"
    by (cases ?qs; cases "tl ?qs") auto
  from bounded_paths_ok [of default_options graph_pair "[''a'', ''b'']"]
  have "paths_ok 3 (option_maxResults default_options) [p0, p1]"
    and "paths_ok 3 (option_maxResults default_options) [q0, q1]"
    unfolding ps qs d by blast+
  then show ?thesis unfolding ps qs by (simp add: paths_ok_def)
qed

section \<open>Propagated activation scores\<close>

lemma activation_le_one: "calculateNodeActivationScore node srcs graph \<le> 1"
  by (simp add: calculateNodeActivationScore_def Let_def)

lemma baseScore_le_one: "baseScore_of graph srcs nid \<le> 1"
  by (simp add: baseScore_of_def activation_le_one split: option.splits)

lemma activate_neighbors_entry:
  "it \<in> set (activate_neighbors graph srcs current nbs) \<Longrightarrow>
   \<exists>nb \<in> set nbs.
      activationScore it = baseScore_of graph srcs (nb_nodeId nb) * nb_weight nb * activationScore current \<and>
      0.15 \<le> activationScore it \<and>
      parentScore it = activationScore current \<and>
      oq_path it = oq_path current @ [nb_nodeId nb]"
  by (induction nbs) (auto simp: Let_def baseScore_of_def split: if_splits)

lemma selective_neighbors_edge:
  "nb \<in> set (getValidNeighborsWithSelectiveActivation nid graph visited minW score) \<Longrightarrow>
   \<exists>e \<in> set (edges graph). nb_weight nb = weight e \<and> (e_from e = nid \<or> e_to e = nid)"
  by (auto simp: getValidNeighborsWithSelectiveActivation_def Let_def set_js_sort)

lemma propagated_le:
  fixes b w p :: real
  assumes "b \<le> 1" "0 \<le> w" "w \<le> 1" "0 \<le> p"
  shows "b * w * p \<le> p"
proof -
  have "b * w \<le> 1"
  proof (cases "0 \<le> b")
    case True
    then have "b * w \<le> 1 * 1" using assms by (intro mult_mono) auto
    then show ?thesis by simp
  next
    case False
    then have "b * w \<le> 0" using assms by (simp add: mult_le_0_iff)
    then show ?thesis by simp
  qed
  then have "b * w * p \<le> 1 * p" using assms(4) by (rule mult_right_mono)
  then show ?thesis by simp
qed

lemma optimized_step_new_entries:
  assumes q: "js_sort queue_order (o_queue st) = current # rest"
    and it: "it \<in> set (o_queue (optimized_step graph srcs maxD minW st))"
    and new: "it \<notin> set rest"
  shows "0.25 \<le> activationScore current \<and>
         it \<in> set (activate_neighbors graph srcs current
            (getValidNeighborsWithSelectiveActivation (oq_nodeId current) graph
               (oq_visited current) minW (activationScore current)))"
  using it new unfolding optimized_step_def q
  by (auto simp: Let_def split: if_splits)

lemma activate_neighbors_traversed:
  "it \<in> set (activate_neighbors graph srcs current nbs) \<Longrightarrow>
   parentScore it = activationScore current \<and>
   activationScore it =
     baseScore_of graph srcs (oq_nodeId it) * traversed_weight current it * activationScore current"
  by (induction nbs) (auto simp: Let_def baseScore_of_def traversed_weight_def split: if_splits)

lemma optimized_step_enqueues:
  assumes q: "js_sort queue_order (o_queue st) = current # rest"
    and it: "it \<in> set (o_queue (optimized_step graph srcs maxD minW st))"
    and new: "it \<notin> set rest"
  shows "enqueues graph srcs maxD minW current it"
  using it new unfolding optimized_step_def q enqueues_def
  by (auto simp: Let_def split: if_splits)

lemma enqueues_le:
  assumes e: "enqueues graph srcs maxD minW parent entry"
    and w: "0 \<le> traversed_weight parent entry" "traversed_weight parent entry \<le> 1"
  shows "activationScore entry \<le> activationScore parent"
proof -
  from e have p: "0 \<le> activationScore parent" and
    m: "entry \<in> set (activate_neighbors graph srcs parent
         (getValidNeighborsWithSelectiveActivation (oq_nodeId parent) graph (oq_visited parent)
            minW (activationScore parent)))"
    by (auto simp: enqueues_def)
  from activate_neighbors_traversed [OF m]
  have "activationScore entry =
     baseScore_of graph srcs (oq_nodeId entry) * traversed_weight parent entry * activationScore parent"
    by simp
  also have "\<dots> \<le> activationScore parent"
    using w p by (intro propagated_le baseScore_le_one)
  finally show ?thesis .
qed

lemma along_path_nonincreasing:
  "along_path graph srcs maxD minW es \<Longrightarrow>
   sorted_wrt (\<lambda>a b. activationScore b \<le> activationScore a) es"
proof (induction graph srcs maxD minW es rule: along_path.induct)
  case (1 graph srcs maxD minW x y rest)
  then have s: "sorted_wrt (\<lambda>a b. activationScore b \<le> activationScore a) (y # rest)"
    and xy: "activationScore y \<le> activationScore x"
    using enqueues_le by auto
  from s have "\<forall>z \<in> set rest. activationScore z \<le> activationScore y" by simp
  with xy have "\<forall>z \<in> set (y # rest). activationScore z \<le> activationScore x" by auto
  with s show ?case by simp
qed simp_all

text \<open>
  Claim C2. In the selective variant, every entry that a pass of the loop adds to the queue
  is pushed from the popped entry \<open>current\<close>, has \<open>current\<close>'s activation score as its parent
  score, and has the activation score base score times traversed edge weight times
  \<open>current\<close>'s activation score; when the weight of the edge traversed to it is in
  \<open>[0, 1]\<close>, that score is at most \<open>current\<close>'s. Hence along every path of the search whose
  traversed edges have weights in \<open>[0, 1]\<close> the activation scores are non-increasing.
  Nothing is assumed of the edges that are not traversed.
\<close>

theorem propagated_score_nonincreasing:
  "(js_sort queue_order (o_queue st) = current # rest \<longrightarrow>
      (\<forall>it \<in> set (o_queue (optimized_step graph srcs maxD minW st)).
          it \<in> set rest \<or>
          enqueues graph srcs maxD minW current it \<and>
          parentScore it = activationScore current \<and>
          activationScore it =
            baseScore_of graph srcs (oq_nodeId it) * traversed_weight current it
              * activationScore current \<and>
          (0 \<le> traversed_weight current it \<and> traversed_weight current it \<le> 1 \<longrightarrow>
             activationScore it \<le> activationScore current))) \<and>
   (along_path graph srcs maxD minW es \<longrightarrow>
      sorted_wrt (\<lambda>a b. activationScore b \<le> activationScore a) es)"
proof (intro conjI impI ballI)
  fix it
  assume q: "js_sort queue_order (o_queue st) = current # rest"
    and it: "it \<in> set (o_queue (optimized_step graph srcs maxD minW st))"
  show "it \<in> set rest \<or>
          enqueues graph srcs maxD minW current it \<and>
          parentScore it = activationScore current \<and>
          activationScore it =
            baseScore_of graph srcs (oq_nodeId it) * traversed_weight current it
              * activationScore current \<and>
          (0 \<le> traversed_weight current it \<and> traversed_weight current it \<le> 1 \<longrightarrow>
             activationScore it \<le> activationScore current)"
  proof (cases "it \<in> set rest")
    case True
    then show ?thesis by simp
  next
    case False
    from optimized_step_enqueues [OF q it False]
    have e: "enqueues graph srcs maxD minW current it" .
    then have "it \<in> set (activate_neighbors graph srcs current
         (getValidNeighborsWithSelectiveActivation (oq_nodeId current) graph (oq_visited current)
            minW (activationScore current)))"
      by (simp add: enqueues_def)
    from activate_neighbors_traversed [OF this] e enqueues_le [OF e]
    show ?thesis by blast
  qed
next
  assume "along_path graph srcs maxD minW es"
  then show "sorted_wrt (\<lambda>a b. activationScore b \<le> activationScore a) es"
    by (rule along_path_nonincreasing)
qed

theorem propagated_score_witness:
  "length (o_queue (optimized_init graph_stray [''a''])) = 1 \<and>
   length (o_queue (optimized_step graph_stray [''a''] 3 0.1 (optimized_init graph_stray [''a'']))) = 1 \<and>
   traversed_weight (hd (o_queue (optimized_init graph_stray [''a'']))) 
     (hd (o_queue (optimized_step graph_stray [''a''] 3 0.1 (optimized_init graph_stray [''a''])))) = 0.9 \<and>
   activationScore (hd (o_queue (optimized_step graph_stray [''a''] 3 0.1 (optimized_init graph_stray [''a'']))))
     \<le> activationScore (hd (o_queue (optimized_init graph_stray [''a'']))) \<and>
   sorted_wrt (\<lambda>a b. activationScore b \<le> activationScore a)
     [hd (o_queue (optimized_init graph_stray [''a''])),
      hd (o_queue (optimized_step graph_stray [''a''] 3 0.1 (optimized_init graph_stray [''a''])))]"
proof -
  let ?st = "optimized_init graph_stray [''a'']"
  let ?st' = "optimized_step graph_stray [''a''] 3 0.1 ?st"
  have l: "length (o_queue ?st) = 1" by code_simp
  have l': "length (o_queue ?st') = 1" by code_simp
  have t: "traversed_weight (hd (o_queue ?st)) (hd (o_queue ?st')) = 0.9" by code_simp
  from l obtain c where c: "o_queue ?st = [c]" by (cases "o_queue ?st") auto
  then have q: "js_sort queue_order (o_queue ?st) = c # []" by (simp add: js_sort_def)
  from l' obtain i where i: "o_queue ?st' = [i]" by (cases "o_queue ?st'") auto
  from t c i have w: "0 \<le> traversed_weight c i \<and> traversed_weight c i \<le> 1" by simp
  from propagated_score_nonincreasing [of ?st c "[]" graph_stray "[''a'']" 3 "0.1" "[c, i]"] q
  have step: "\<forall>it \<in> set (o_queue ?st'). it \<in> set [] \<or>
          enqueues graph_stray [''a''] 3 0.1 c it \<and>
          parentScore it = activationScore c \<and>
          activationScore it =
            baseScore_of graph_stray [''a''] (oq_nodeId it) * traversed_weight c it * activationScore c \<and>
          (0 \<le> traversed_weight c it \<and> traversed_weight c it \<le> 1 \<longrightarrow>
             activationScore it \<le> activationScore c)"
    and path: "along_path graph_stray [''a''] 3 0.1 [c, i] \<longrightarrow>
      sorted_wrt (\<lambda>a b. activationScore b \<le> activationScore a) [c, i]"
    by blast+
  from step i w have e: "enqueues graph_stray [''a''] 3 0.1 c i"
    and le: "activationScore i \<le> activationScore c" by auto
  from e w have "along_path graph_stray [''a''] 3 0.1 [c, i]" by simp
  with path have "sorted_wrt (\<lambda>a b. activationScore b \<le> activationScore a) [c, i]" by blast
  with l l' t le c i show ?thesis by simp
qed

text \<open>
  Claim C10. In the selective variant every entry that a pass of the loop adds to the queue
  has an activation score of at least 0.15, so in every state that the search reaches each
  queue entry is a seed or has an activation score of at least 0.15; and an entry popped
  with a score below 0.25 only leaves the queue: nothing is added to the results, the
  signatures or the queue.
\<close>

theorem enqueue_floor:
  "(js_sort queue_order (o_queue st) = current # rest \<longrightarrow>
      (\<forall>it \<in> set (o_queue (optimized_step graph srcs maxD minW st)).
          it \<in> set rest \<or> 0.15 \<le> activationScore it) \<and>
      (activationScore current < 0.25 \<longrightarrow>
          optimized_step graph srcs maxD minW st = st\<lparr>o_queue := rest\<rparr>)) \<and>
   (\<forall>it \<in> set (o_queue ((optimized_step graph srcs maxD minW ^^ n) (optimized_init graph srcs))).
      it \<in> set (optimized_seed_queue graph srcs srcs) \<or> 0.15 \<le> activationScore it)"
proof -
  have step: "it \<in> set rest \<or> 0.15 \<le> activationScore it"
    if q: "js_sort queue_order (o_queue st) = current # rest"
      and it: "it \<in> set (o_queue (optimized_step graph srcs maxD minW st))"
    for st current rest it
  proof (cases "it \<in> set rest")
    case True
    then show ?thesis by simp
  next
    case False
    from optimized_step_new_entries [OF q it False] activate_neighbors_entry
    show ?thesis by blast
  qed
  have gate: "optimized_step graph srcs maxD minW st = st\<lparr>o_queue := rest\<rparr>"
    if "js_sort queue_order (o_queue st) = current # rest" "activationScore current < 0.25"
    using that by (simp add: optimized_step_def)
  have iter: "\<forall>it \<in> set (o_queue ((optimized_step graph srcs maxD minW ^^ n) (optimized_init graph srcs))).
      it \<in> set (optimized_seed_queue graph srcs srcs) \<or> 0.15 \<le> activationScore it"
  proof (induction n)
    case 0
    then show ?case by (simp add: optimized_init_def)
  next
    case (Suc n)
    let ?st = "(optimized_step graph srcs maxD minW ^^ n) (optimized_init graph srcs)"
    show ?case
    proof (cases "js_sort queue_order (o_queue ?st)")
      case Nil
      then have "optimized_step graph srcs maxD minW ?st = ?st" by (simp add: optimized_step_def)
      then show ?thesis using Suc by simp
    next
      case (Cons current rest)
      have sub: "set rest \<subseteq> set (o_queue ?st)"
        using set_js_sort [of queue_order "o_queue ?st"] Cons by auto
      show ?thesis
      proof
        fix it assume "it \<in> set (o_queue ((optimized_step graph srcs maxD minW ^^ Suc n) (optimized_init graph srcs)))"
        then have "it \<in> set (o_queue (optimized_step graph srcs maxD minW ?st))" by simp
        from step [OF Cons this]
        show "it \<in> set (optimized_seed_queue graph srcs srcs) \<or> 0.15 \<le> activationScore it"
          using sub Suc by auto
      qed
    qed
  qed
  from step gate iter show ?thesis by blast
qed

theorem enqueue_floor_witness:
  "length (o_queue (optimized_step graph_pair [''a''] 3 0.1 (optimized_init graph_pair [''a'']))) = 1 \<and>
   0.15 \<le> activationScore (hd (o_queue (optimized_step graph_pair [''a''] 3 0.1 (optimized_init graph_pair [''a''])))) \<and>
   activationScore (hd (o_queue state_low)) < 0.25 \<and>
   optimized_step graph_pair [''a''] 3 0.1 state_low = state_low\<lparr>o_queue := []\<rparr>"
proof -
  let ?st = "optimized_init graph_pair [''a'']"
  let ?st' = "optimized_step graph_pair [''a''] 3 0.1 ?st"
  have l: "length (o_queue ?st) = 1" by code_simp
  have l': "length (o_queue ?st') = 1" by code_simp
  from l obtain c where c: "o_queue ?st = [c]" by (cases "o_queue ?st") auto
  then have q: "js_sort queue_order (o_queue ?st) = c # []" by (simp add: js_sort_def)
  from l' obtain i where i: "o_queue ?st' = [i]" by (cases "o_queue ?st'") auto
  have nc: "i \<notin> set []" by simp
  from enqueue_floor [of ?st c "[]" graph_pair "[''a'']" 3 "0.1" 0] q
  have "\<forall>it \<in> set (o_queue ?st'). it \<in> set [] \<or> 0.15 \<le> activationScore it" by blast
  then have a: "0.15 \<le> activationScore (hd (o_queue ?st'))" using i by simp
  obtain lo where lo: "o_queue state_low = [lo]" and s: "activationScore lo < 0.25"
    by (simp add: state_low_def)
  then have q2: "js_sort queue_order (o_queue state_low) = lo # []" by (simp add: js_sort_def)
  from enqueue_floor [of state_low lo "[]" graph_pair "[''a'']" 3 "0.1" 0] q2 s
  have "optimized_step graph_pair [''a''] 3 0.1 state_low = state_low\<lparr>o_queue := []\<rparr>" by blast
  with a l' lo s show ?thesis by simp
qed

end
